theory Spec2Isabelle
  imports Main
begin

section \<open>The exception-driven engine: Rule.hpp and ChoiceParser.hpp\<close>

text \<open>
  Positions are iterators into the input; they are modelled as indices into it. A rule is
  identified by the address of its \<open>Rule\<close> object, modelled as a number.
\<close>

type_synonym Position = nat
type_synonym rule_id = nat

text \<open>The private enum \<open>Rule::State\<close> (Rule.hpp, lines 112 to 116).\<close>

datatype State = Normal | Reject | Accept

text \<open>
  The two fields of a \<open>Rule\<close> object that \<open>Rule::operator()\<close> and the setters assign
  (Rule.hpp, lines 118 and 119). \<open>m_parsePosition\<close> is a \<open>std::optional\<close>; a newly
  constructed rule holds no position and is in state \<open>Normal\<close>. The third field,
  \<open>m_parser\<close>, is never assigned after construction and is passed to the model of
  \<open>operator()\<close> as an argument.
\<close>

record Rule =
  m_parsePosition :: "Position option"
  m_state :: State

definition newRule :: Rule where
  "newRule = \<lparr>m_parsePosition = None, m_state = Normal\<rparr>"

text \<open>A match record: label, span and children.\<close>

datatype Match = Match (matchId: nat) (matchBegin: Position) (matchEnd: Position)
  (matchChildren: "Match list")

text \<open>
  Modelled from the spec: the class \<open>ParseContext\<close> is not among the sources. It holds the
  input, the cursor into it and the list of matches built so far; \<open>sourceEndPosition\<close> is the
  end of the input. \<open>state()\<close> captures the cursor and the length of the match list and
  \<open>setState\<close> puts the cursor back and truncates the match list to the captured length
  (as \<open>parser_state::restore\<close> of parser_state.cpp does for the older engine).
\<close>

record ParseContext =
  source :: string
  sourcePosition :: Position
  matches :: "Match list"

definition sourceEndPosition :: "ParseContext \<Rightarrow> Position" where
  "sourceEndPosition c = length (source c)"

definition state :: "ParseContext \<Rightarrow> Position \<times> nat" where
  "state c = (sourcePosition c, length (matches c))"

definition setState :: "Position \<times> nat \<Rightarrow> ParseContext \<Rightarrow> ParseContext" where
  "setState s c = c\<lparr>sourcePosition := fst s, matches := take (snd s) (matches c)\<rparr>"

text \<open>
  Everything a parser can read or write: the parse context it is handed by reference, and
  the \<open>Rule\<close> objects, which are shared between all references to them.
\<close>

record machine =
  pc :: ParseContext
  rules :: "rule_id \<Rightarrow> Rule"

text \<open>
  A call either returns a \<open>bool\<close> or throws a \<open>LeftRecursionException\<close> that carries a
  reference to a rule. In both cases the writes made so far stay.
\<close>

datatype outcome = Returned bool | LeftRecursionException rule_id

text \<open>
  A parser is any callable taking the parse context; \<open>None\<close> stands for a call that never
  returns.
\<close>

type_synonym parser = "machine \<Rightarrow> (outcome \<times> machine) option"

text \<open>The setters of Rule.hpp, lines 93 to 109.\<close>

definition setParsePosition :: "rule_id \<Rightarrow> Position \<Rightarrow> machine \<Rightarrow> machine" where
  "setParsePosition r p st = st\<lparr>rules := (rules st)(r := (rules st r)\<lparr>m_parsePosition := Some p\<rparr>)\<rparr>"

definition setRejectState :: "rule_id \<Rightarrow> machine \<Rightarrow> machine" where
  "setRejectState r st = st\<lparr>rules := (rules st)(r := (rules st r)\<lparr>m_state := Reject\<rparr>)\<rparr>"

definition setAcceptState :: "rule_id \<Rightarrow> machine \<Rightarrow> machine" where
  "setAcceptState r st = st\<lparr>rules := (rules st)(r := (rules st r)\<lparr>m_state := Accept\<rparr>)\<rparr>"

text \<open>
  \<open>Rule::operator()\<close> (Rule.hpp, lines 53 to 79) of the rule \<open>r\<close> whose \<open>m_parser\<close> is the
  second argument. When the body throws, the two assignments after the call are skipped.
\<close>

definition Rule_call :: "rule_id \<Rightarrow> parser \<Rightarrow> parser" where
  "Rule_call r m_parser st =
    (if m_parsePosition (rules st r) = Some (sourcePosition (pc st)) then
       (case m_state (rules st r) of
          Normal \<Rightarrow> Some (LeftRecursionException r, st)
        | Reject \<Rightarrow> Some (Returned False, st)
        | Accept \<Rightarrow> Some (Returned True, st))
     else
       (let prevParsePosition = m_parsePosition (rules st r);
            prevState = m_state (rules st r);
            st1 = st\<lparr>rules := (rules st)
                    (r := \<lparr>m_parsePosition = Some (sourcePosition (pc st)), m_state = Normal\<rparr>)\<rparr>
        in case m_parser st1 of
             None \<Rightarrow> None
           | Some (LeftRecursionException x, st2) \<Rightarrow> Some (LeftRecursionException x, st2)
           | Some (Returned result, st2) \<Rightarrow>
               Some (Returned result,
                     st2\<lparr>rules := (rules st2)
                       (r := \<lparr>m_parsePosition = prevParsePosition, m_state = prevState\<rparr>)\<rparr>)))"

text \<open>
  The \<open>while (true)\<close> loop of \<open>ChoiceParser::parseTuple\<close> (ChoiceParser.hpp, lines 70 to 78)
  followed by the \<open>return true\<close> of line 80. An exception thrown by the child leaves the loop
  and the function.
\<close>

partial_function (option) grow :: "rule_id \<Rightarrow> parser \<Rightarrow> machine \<Rightarrow> (outcome \<times> machine) option"
  where
  "grow r child st =
    (case child (setParsePosition r (sourcePosition (pc st)) st) of
       None \<Rightarrow> None
     | Some (LeftRecursionException x, st1) \<Rightarrow> Some (LeftRecursionException x, st1)
     | Some (Returned result, st1) \<Rightarrow>
         (if \<not> result then Some (Returned True, st1)
          else if sourcePosition (pc st1) = sourceEndPosition (pc st1)
               then Some (Returned True, st1)
               else grow r child st1))"

text \<open>
  \<open>ChoiceParser::parseTuple<Index>\<close> (ChoiceParser.hpp, lines 48 to 90). The argument list is
  the part of the tuple \<open>m_children\<close> from \<open>Index\<close> on: its head is
  \<open>std::get<Index>(m_children)\<close>, and the empty list is the case \<open>Index = sizeof...(Children)\<close>.
\<close>

fun parseTuple :: "parser list \<Rightarrow> parser" where
  "parseTuple [] st = Some (Returned False, st)"
| "parseTuple (child # children) st =
    (let s = state (pc st)
     in case child st of
          None \<Rightarrow> None
        | Some (Returned result, st1) \<Rightarrow>
            (if result then Some (Returned True, st1)
             else parseTuple children (st1\<lparr>pc := setState s (pc st1)\<rparr>))
        | Some (LeftRecursionException r, st1) \<Rightarrow>
            (case parseTuple children (setRejectState r st1) of
               None \<Rightarrow> None
             | Some (LeftRecursionException x, st2) \<Rightarrow> Some (LeftRecursionException x, st2)
             | Some (Returned seed, st2) \<Rightarrow>
                 (if \<not> seed then Some (LeftRecursionException r, st2)
                  else grow r child (setAcceptState r st2))))"

text \<open>\<open>ChoiceParser::operator()\<close> (ChoiceParser.hpp, lines 40 to 42).\<close>

definition ChoiceParser :: "parser list \<Rightarrow> parser" where
  "ChoiceParser m_children st = parseTuple m_children st"

declare grow.simps [code]

subsection \<open>Parser expressions around the two classes\<close>

text \<open>
  Modelled from the spec: TerminalParser.hpp is not among the sources. A terminal succeeds
  when the cursor is not at the end of the input and the element under it equals the literal,
  and then advances the cursor by one; otherwise it rejects and leaves the context as it is.
  It never throws.
\<close>

definition TerminalParser :: "char \<Rightarrow> parser" where
  "TerminalParser ch st =
    (let c = pc st
     in if sourcePosition c < sourceEndPosition c \<and> source c ! sourcePosition c = ch
        then Some (Returned True, st\<lparr>pc := c\<lparr>sourcePosition := Suc (sourcePosition c)\<rparr>\<rparr>)
        else Some (Returned False, st))"

text \<open>
  Modelled from the spec: SequenceParser.hpp is not among the sources. The children are invoked
  from left to right; the sequence succeeds when all of them do; when one rejects, the cursor
  and the match list are put back to the snapshot taken before the first child. It catches
  nothing, so an exception of a child leaves it at once.
\<close>

fun parseSequence :: "parser list \<Rightarrow> parser" where
  "parseSequence [] st = Some (Returned True, st)"
| "parseSequence (child # children) st =
    (case child st of
       None \<Rightarrow> None
     | Some (LeftRecursionException x, st1) \<Rightarrow> Some (LeftRecursionException x, st1)
     | Some (Returned result, st1) \<Rightarrow>
         (if result then parseSequence children st1 else Some (Returned False, st1)))"

definition SequenceParser :: "parser list \<Rightarrow> parser" where
  "SequenceParser m_children st =
    (let s = state (pc st)
     in case parseSequence m_children st of
          None \<Rightarrow> None
        | Some (LeftRecursionException x, st1) \<Rightarrow> Some (LeftRecursionException x, st1)
        | Some (Returned result, st1) \<Rightarrow>
            (if result then Some (Returned True, st1)
             else Some (Returned False, st1\<lparr>pc := setState s (pc st1)\<rparr>)))"

text \<open>
  Modelled from the spec: RuleReference.hpp and ParserWrapper.hpp are not among the sources.
  A rule holds its expression behind \<open>m_parser\<close>; an expression refers to a rule through a
  \<open>RuleReference\<close>, which calls \<open>Rule::operator()\<close> of that rule. A grammar gives every rule
  its expression. The first argument of \<open>run\<close> bounds the depth of nested calls; \<open>None\<close> is
  a call that did not return within that depth, or not at all.
\<close>

datatype expr =
  Terminal char
| Sequence "expr list"
| Choice "expr list"
| RuleReference rule_id

primrec run :: "nat \<Rightarrow> (rule_id \<Rightarrow> expr) \<Rightarrow> expr \<Rightarrow> parser" where
  "run 0 g e = (\<lambda>st. None)"
| "run (Suc n) g e =
    (case e of
       Terminal ch \<Rightarrow> TerminalParser ch
     | Sequence es \<Rightarrow> SequenceParser (map (run n g) es)
     | Choice es \<Rightarrow> ChoiceParser (map (run n g) es)
     | RuleReference r \<Rightarrow> Rule_call r (run n g (g r)))"

text \<open>
  Modelled from the spec: the entry point of a parse is not among the sources. A parse of an
  input starts with a new parse context on that input, the cursor at its beginning and no
  matches. The \<open>Rule\<close> objects are those of the grammar: newly constructed ones for its
  first parse (\<open>start\<close>), and the same objects, as the parse before left them, for a later
  one (\<open>restart\<close>).
\<close>

definition newContext :: "string \<Rightarrow> ParseContext" where
  "newContext input = \<lparr>source = input, sourcePosition = 0, matches = []\<rparr>"

definition start :: "string \<Rightarrow> machine" where
  "start input = \<lparr>pc = newContext input, rules = (\<lambda>r. newRule)\<rparr>"

definition restart :: "string \<Rightarrow> machine \<Rightarrow> machine" where
  "restart input st = st\<lparr>pc := newContext input\<rparr>"

text \<open>
  Two parses of the same input with the same grammar, one after the other, and of each the
  outcome and the cursor it reached.
\<close>

definition parse_twice ::
  "nat \<Rightarrow> (rule_id \<Rightarrow> expr) \<Rightarrow> expr \<Rightarrow> string
     \<Rightarrow> ((outcome \<times> Position) \<times> (outcome \<times> Position)) option" where
  "parse_twice n g e input =
    (case run n g e (start input) of
       None \<Rightarrow> None
     | Some (out1, st1) \<Rightarrow>
         (case run n g e (restart input st1) of
            None \<Rightarrow> None
          | Some (out2, st2) \<Rightarrow>
              Some ((out1, sourcePosition (pc st1)), (out2, sourcePosition (pc st2)))))"

text \<open>The outcome of a call together with the fields of one rule after it.\<close>

definition outcome_and_rule :: "rule_id \<Rightarrow> (outcome \<times> machine) option \<Rightarrow> (outcome \<times> Rule) option" where
  "outcome_and_rule r x = map_option (\<lambda>(out, st). (out, rules st r)) x"

text \<open>The outcome of a call together with the cursor after it.\<close>

definition outcome_and_cursor :: "(outcome \<times> machine) option \<Rightarrow> (outcome \<times> Position) option" where
  "outcome_and_cursor x = map_option (\<lambda>(out, st). (out, sourcePosition (pc st))) x"

subsection \<open>Notions the statements use\<close>

text \<open>
  The match list of the second machine extends that of the first: what was there is still
  there, in place. A parser keeps the matches when every call of it that ends, by a return or
  by an exception, only extends the list.
\<close>

definition extends :: "machine \<Rightarrow> machine \<Rightarrow> bool" where
  "extends st st' = (take (length (matches (pc st))) (matches (pc st')) = matches (pc st))"

definition keeps_matches :: "parser \<Rightarrow> bool" where
  "keeps_matches p = (\<forall>st out st'. p st = Some (out, st') \<longrightarrow> extends st st')"

text \<open>
  Written from the words of the specification, not from the code: every alternative, tried in
  order, rejects, and after each the context is put back to the snapshot taken before it. The
  result is the machine after the last roll-back.
\<close>

fun alternatives_reject :: "parser list \<Rightarrow> machine \<Rightarrow> machine option" where
  "alternatives_reject [] st = Some st"
| "alternatives_reject (A # rest) st =
    (case A st of
       Some (Returned False, st1) \<Rightarrow>
         alternatives_reject rest (st1\<lparr>pc := setState (state (pc st)) (pc st1)\<rparr>)
     | _ \<Rightarrow> None)"

text \<open>
  On the machines that satisfy \<open>I\<close>, an iteration of the grow loop returns a verdict, and when
  it accepts short of the end of the input it has moved the cursor forward, within the input,
  to a machine that satisfies \<open>I\<close> again.
\<close>

definition advances :: "(machine \<Rightarrow> bool) \<Rightarrow> rule_id \<Rightarrow> parser \<Rightarrow> bool" where
  "advances I r child =
    (\<forall>s. I s \<longrightarrow>
       (\<exists>b s'. child (setParsePosition r (sourcePosition (pc s)) s) = Some (Returned b, s') \<and>
          (b \<and> sourcePosition (pc s') \<noteq> sourceEndPosition (pc s') \<longrightarrow>
             I s' \<and> sourceEndPosition (pc s') = sourceEndPosition (pc s) \<and>
             sourcePosition (pc s) < sourcePosition (pc s') \<and>
             sourcePosition (pc s') \<le> sourceEndPosition (pc s'))))"

text \<open>Whatever the first parser returns, the second returns too.\<close>

definition refines :: "parser \<Rightarrow> parser \<Rightarrow> bool" where
  "refines p q = (\<forall>s y. p s = Some y \<longrightarrow> q s = Some y)"

subsection \<open>Grammars and machines of the examples\<close>

text \<open>A parser that never returns.\<close>

definition hangs :: parser where
  "hangs st = None"


text \<open>
  The machine on which \<open>Rule::operator()\<close> of rule 0 calls its body when a parse starts with
  that rule.
\<close>

definition in_frame :: "string \<Rightarrow> machine" where
  "in_frame input = \<lparr>pc = newContext input,
                      rules = (\<lambda>r. newRule)(0 := \<lparr>m_parsePosition = Some 0, m_state = Normal\<rparr>)\<rparr>"

text \<open>\<open>E = E '+' 'n' | 'n'\<close>, with its left-recursive alternative \<open>sum_alt\<close>.\<close>

definition G_sum :: "rule_id \<Rightarrow> expr" where
  "G_sum r = Choice [Sequence [RuleReference 0, Terminal CHR ''+'', Terminal CHR ''n''],
                     Terminal CHR ''n'']"

definition sum_alt :: parser where
  "sum_alt = run 3 G_sum (Sequence [RuleReference 0, Terminal CHR ''+'', Terminal CHR ''n''])"

definition accepting :: "machine \<Rightarrow> bool" where
  "accepting s = (m_state (rules s 0) = Accept)"

text \<open>The machine after the seed \<open>'n'\<close> of \<open>E\<close> on the input \<open>n+n\<close>, rule 0 set to \<open>Accept\<close>.\<close>

definition seeded :: machine where
  "seeded = \<lparr>pc = (newContext ''n+n'')\<lparr>sourcePosition := 1\<rparr>,
             rules = (\<lambda>r. newRule)(0 := \<lparr>m_parsePosition = Some 0, m_state = Accept\<rparr>)\<rparr>"

text \<open>
  \<open>E = E '+' 'n' | E | 'n'\<close>, with its first alternative \<open>seed_alt\<close>: the second alternative
  is the rule itself, which has to reject for the third to give the seed.
\<close>

definition G_seed :: "rule_id \<Rightarrow> expr" where
  "G_seed r = Choice [Sequence [RuleReference 0, Terminal CHR ''+'', Terminal CHR ''n''],
                      RuleReference 0,
                      Terminal CHR ''n'']"

definition seed_alt :: parser where
  "seed_alt = run 3 G_seed (Sequence [RuleReference 0, Terminal CHR ''+'', Terminal CHR ''n''])"



text \<open>\<open>R = R | 'a'\<close>.\<close>

definition G_loop :: "rule_id \<Rightarrow> expr" where
  "G_loop r = Choice [RuleReference 0, Terminal CHR ''a'']"

text \<open>\<open>R = R 'a' | 'a'\<close> (rule 0) and \<open>T = 'b' R 'a' | R 'b' | 'b'\<close> (every other rule).\<close>

definition G_twice :: "rule_id \<Rightarrow> expr" where
  "G_twice r =
    (if r = 0 then Choice [Sequence [RuleReference 0, Terminal CHR ''a''], Terminal CHR ''a'']
     else Choice [Sequence [Terminal CHR ''b'', RuleReference 0, Terminal CHR ''a''],
                  Sequence [RuleReference 0, Terminal CHR ''b''],
                  Terminal CHR ''b''])"

section \<open>The verdict-based engine: rule.hpp\<close>

text \<open>
  Modelled from the spec: parse_context.hpp and parse_result.hpp are not among the sources.
  The verdicts, the left-recursion states and the fields of the context are the ones
  \<open>rule::parse\<close> names: the cursor \<open>position\<close>, the per-rule stacks \<open>positions\<close> keyed by
  the address of the rule, and the single record \<open>left_recursion\<close> of a state and an anchor
  position. \<open>valid()\<close> says that the cursor has not reached the end of the input.
\<close>

datatype parse_result = accepted | accepted_left_recursion | rejected | rejected_left_recursion

datatype left_recursion_state = inactive | reject | accept

record left_recursion_t =
  state_lr :: left_recursion_state
  position_lr :: Position

record parse_context =
  position :: Position
  end_position :: Position
  positions :: "rule_id \<rightharpoonup> Position list"
  left_recursion :: left_recursion_t

definition valid :: "parse_context \<Rightarrow> bool" where
  "valid c = (position c < end_position c)"

text \<open>
  An expression is anything with a \<open>parse\<close> member taking the context; \<open>None\<close> stands for a
  call without a result: it never returns, or its behaviour is undefined.
\<close>

type_synonym expression = "parse_context \<Rightarrow> (parse_result \<times> parse_context) option"

text \<open>The stack of entry positions of a rule; a rule without an entry in the map has none.\<close>

definition stack :: "rule_id \<Rightarrow> parse_context \<Rightarrow> Position list" where
  "stack this c = (case positions c this of None \<Rightarrow> [] | Some ps \<Rightarrow> ps)"

text \<open>
  \<open>rule::activate\<close> (rule.hpp, lines 159 to 164): \<open>pc.positions[this]\<close> inserts an empty
  stack when the rule has none, then the cursor is pushed.
\<close>

definition activate :: "rule_id \<Rightarrow> parse_context \<Rightarrow> bool \<times> parse_context" where
  "activate this c =
    (let ps = stack this c @ [position c]
     in (length ps \<ge> 2 \<and> ps ! (length ps - 1) = ps ! (length ps - 2),
         c\<lparr>positions := (positions c)(this \<mapsto> ps)\<rparr>))"

text \<open>
  \<open>rule::deactivate\<close> (rule.hpp, lines 167 to 170): \<open>find(this)->second.pop_back()\<close>. When
  the rule has no entry in the map, \<open>find\<close> gives the end iterator, and when its stack is
  empty, \<open>pop_back\<close> has nothing to remove: in both cases the behaviour of the C++ is
  undefined, and the call has no result.
\<close>

definition deactivate :: "rule_id \<Rightarrow> parse_context \<Rightarrow> parse_context option" where
  "deactivate this c =
    (case positions c this of
       None \<Rightarrow> None
     | Some ps \<Rightarrow>
         (if ps = [] then None else Some (c\<lparr>positions := (positions c)(this \<mapsto> butlast ps)\<rparr>)))"

text \<open>
  The \<open>for\<close> loop of \<open>rule::parse\<close> (rule.hpp, lines 68 to 89); \<open>result\<close> is the local variable
  of that name, which the loop overwrites only when it stops on \<open>rejected_left_recursion\<close>.
\<close>

partial_function (option) lr_loop ::
  "expression \<Rightarrow> parse_result \<Rightarrow> parse_context \<Rightarrow> (parse_result \<times> parse_context) option"
  where
  "lr_loop m_expression result c =
    (if valid c then
       (case m_expression (c\<lparr>left_recursion := (left_recursion c)\<lparr>position_lr := position c\<rparr>\<rparr>) of
          None \<Rightarrow> None
        | Some (lr_result, c1) \<Rightarrow>
            (case lr_result of
               accepted \<Rightarrow> lr_loop m_expression result c1
             | accepted_left_recursion \<Rightarrow> lr_loop m_expression result c1
             | rejected \<Rightarrow> Some (result, c1)
             | rejected_left_recursion \<Rightarrow> Some (rejected_left_recursion, c1)))
     else Some (result, c))"

declare lr_loop.simps [code]

text \<open>
  The body of a rule parsed with the left-recursion record set to inactive at the cursor and
  put back afterwards (rule.hpp, lines 107 to 110 and again 128 to 131).
\<close>

definition parse_reset :: "expression \<Rightarrow> expression" where
  "parse_reset m_expression c =
    (let prev_left_recursion = left_recursion c
     in case m_expression (c\<lparr>left_recursion := \<lparr>state_lr = inactive, position_lr = position c\<rparr>\<rparr>) of
          None \<Rightarrow> None
        | Some (result, c1) \<Rightarrow> Some (result, c1\<lparr>left_recursion := prev_left_recursion\<rparr>))"

text \<open>
  The \<open>switch\<close> of \<open>rule::parse\<close> (rule.hpp, lines 53 to 147), after \<open>activate\<close> and before
  \<open>deactivate\<close>.
\<close>

definition parse_switch :: "bool \<Rightarrow> expression \<Rightarrow> expression" where
  "parse_switch is_left_recursive m_expression c =
    (case state_lr (left_recursion c) of
       inactive \<Rightarrow>
         (if \<not> is_left_recursive then
            (let prev_left_recursion = left_recursion c
             in case m_expression c of
                  None \<Rightarrow> None
                | Some (result, c1) \<Rightarrow>
                    (if state_lr (left_recursion c1) = reject then
                       (if result = accepted then
                          (case lr_loop m_expression result
                                  (c1\<lparr>left_recursion := (left_recursion c1)\<lparr>state_lr := accept\<rparr>\<rparr>) of
                             None \<Rightarrow> None
                           | Some (result', c2) \<Rightarrow>
                               Some (result', c2\<lparr>left_recursion := prev_left_recursion\<rparr>))
                        else Some (result, c1\<lparr>left_recursion := prev_left_recursion\<rparr>))
                     else Some (result, c1)))
          else Some (rejected_left_recursion,
                     c\<lparr>left_recursion := \<lparr>state_lr = reject, position_lr = position c\<rparr>\<rparr>))
     | reject \<Rightarrow>
         (if \<not> is_left_recursive then
            (if position c > position_lr (left_recursion c) then parse_reset m_expression c
             else m_expression c)
          else Some (rejected_left_recursion, c))
     | accept \<Rightarrow>
         (if \<not> is_left_recursive then
            (if position c > position_lr (left_recursion c) then parse_reset m_expression c
             else (case m_expression c of
                     None \<Rightarrow> None
                   | Some (result, c1) \<Rightarrow>
                       Some (if result = accepted then accepted_left_recursion else result, c1)))
          else Some (accepted, c)))"

text \<open>\<open>rule::parse\<close> (rule.hpp, lines 47 to 152) of the rule at address \<open>this\<close>.\<close>

definition rule_parse :: "rule_id \<Rightarrow> expression \<Rightarrow> expression" where
  "rule_parse this m_expression c =
    (let (is_left_recursive, c1) = activate this c
     in case parse_switch is_left_recursive m_expression c1 of
          None \<Rightarrow> None
        | Some (result, c2) \<Rightarrow>
            (case deactivate this c2 of
               None \<Rightarrow> None
             | Some c3 \<Rightarrow> Some (result, c3)))"

subsection \<open>Contexts of the examples\<close>

text \<open>An expression that never returns.\<close>

definition never :: expression where
  "never c = None"

text \<open>An expression that accepts any one element: it moves the cursor by one, short of the end.\<close>

definition step_over :: expression where
  "step_over c =
    (if valid c then Some (accepted, c\<lparr>position := Suc (position c)\<rparr>) else Some (rejected, c))"

text \<open>
  Rule 0 was entered at position 0, the cursor is at 1, and the left-recursion record is in
  state accept, anchored at 0.
\<close>

definition past_anchor :: parse_context where
  "past_anchor = \<lparr>position = 1, end_position = 3, positions = [0 \<mapsto> [0]],
                   left_recursion = \<lparr>state_lr = accept, position_lr = 0\<rparr>\<rparr>"

text \<open>A new context: no rule entered, left recursion inactive.\<close>

definition at_start :: parse_context where
  "at_start = \<lparr>position = 0, end_position = 3, positions = Map.empty,
                left_recursion = \<lparr>state_lr = inactive, position_lr = 0\<rparr>\<rparr>"

text \<open>In \<open>at_start\<close>, rule 0 has been entered at position 0.\<close>

definition entered :: parse_context where
  "entered = \<lparr>position = 0, end_position = 3, positions = [0 \<mapsto> [0]],
               left_recursion = \<lparr>state_lr = inactive, position_lr = 0\<rparr>\<rparr>"

text \<open>The verdict of a call together with the stack of one rule after it.\<close>

definition result_and_stack ::
  "rule_id \<Rightarrow> (parse_result \<times> parse_context) option \<Rightarrow> (parse_result \<times> Position list) option" where
  "result_and_stack r x = map_option (\<lambda>(res, c). (res, stack r c)) x"

section \<open>Properties of the exception-driven engine\<close>

lemma setters_pc [simp]:
  "pc (setParsePosition r p st) = pc st"
  "pc (setRejectState r st) = pc st"
  "pc (setAcceptState r st) = pc st"
  by (simp_all add: setParsePosition_def setRejectState_def setAcceptState_def)

subsection \<open>Re-entry of a rule at the same position\<close>



subsection \<open>The grow loop\<close>

lemma grow_never_rejects_aux:
  assumes "grow r child st = Some y"
  shows "fst y \<noteq> Returned False"
  by (rule grow.raw_induct [where P = "\<lambda>_ _ _ y. fst y \<noteq> Returned False", OF _ assms])
     (auto split: option.splits prod.splits outcome.splits if_splits)

lemma grow_never_rejects:
  assumes "grow r child st = Some (Returned b, st')"
  shows "b"
  using grow_never_rejects_aux [OF assms] by simp

lemma grow_unfold_reject:
  "child (setParsePosition r (sourcePosition (pc st)) st) = Some (Returned False, st1)
    \<Longrightarrow> grow r child st = Some (Returned True, st1)"
  by (subst grow.simps) simp

lemma grow_unfold_end:
  "child (setParsePosition r (sourcePosition (pc st)) st) = Some (Returned True, st1)
    \<Longrightarrow> sourcePosition (pc st1) = sourceEndPosition (pc st1)
    \<Longrightarrow> grow r child st = Some (Returned True, st1)"
  by (subst grow.simps) simp

lemma grow_unfold_continue:
  "child (setParsePosition r (sourcePosition (pc st)) st) = Some (Returned True, st1)
    \<Longrightarrow> sourcePosition (pc st1) \<noteq> sourceEndPosition (pc st1)
    \<Longrightarrow> grow r child st = grow r child st1"
  by (subst grow.simps) simp

text \<open>
  The loop returns when the distance to the end of the input shrinks with every iteration
  that goes on.
\<close>

lemma grow_returns:
  assumes "I st"
    and step: "\<And>s. I s \<Longrightarrow>
        \<exists>b s'. child (setParsePosition r (sourcePosition (pc s)) s) = Some (Returned b, s') \<and>
          (b \<and> sourcePosition (pc s') \<noteq> sourceEndPosition (pc s') \<longrightarrow>
             I s' \<and> sourceEndPosition (pc s') - sourcePosition (pc s')
                     < sourceEndPosition (pc s) - sourcePosition (pc s))"
  shows "\<exists>st'. grow r child st = Some (Returned True, st')"
  using assms(1)
proof (induction "sourceEndPosition (pc st) - sourcePosition (pc st)" arbitrary: st rule: less_induct)
  case less
  from step [OF less.prems] obtain b s' where
    c: "child (setParsePosition r (sourcePosition (pc st)) st) = Some (Returned b, s')"
    and n: "b \<and> sourcePosition (pc s') \<noteq> sourceEndPosition (pc s') \<longrightarrow>
              I s' \<and> sourceEndPosition (pc s') - sourcePosition (pc s')
                      < sourceEndPosition (pc st) - sourcePosition (pc st)"
    by blast
  show ?case
  proof (cases "b \<and> sourcePosition (pc s') \<noteq> sourceEndPosition (pc s')")
    case True
    with n less.hyps [of s'] have "\<exists>st'. grow r child s' = Some (Returned True, st')" by blast
    with True c show ?thesis by (simp add: grow_unfold_continue)
  next
    case False
    with c show ?thesis
      by (cases b) (auto simp: grow_unfold_reject grow_unfold_end)
  qed
qed

lemma grow_returns_advancing:
  assumes "I st" "advances I r child"
  shows "\<exists>st'. grow r child st = Some (Returned True, st')"
proof (rule grow_returns [where I = I, OF assms(1)])
  fix s assume "I s"
  with assms(2) obtain b s' where
    c: "child (setParsePosition r (sourcePosition (pc s)) s) = Some (Returned b, s')"
    and n: "b \<and> sourcePosition (pc s') \<noteq> sourceEndPosition (pc s') \<longrightarrow>
             I s' \<and> sourceEndPosition (pc s') = sourceEndPosition (pc s) \<and>
             sourcePosition (pc s) < sourcePosition (pc s') \<and>
             sourcePosition (pc s') \<le> sourceEndPosition (pc s')"
    unfolding advances_def by blast
  from n have "b \<and> sourcePosition (pc s') \<noteq> sourceEndPosition (pc s') \<longrightarrow>
      I s' \<and> sourceEndPosition (pc s') - sourcePosition (pc s')
              < sourceEndPosition (pc s) - sourcePosition (pc s)"
    by auto
  with c show "\<exists>b s'. child (setParsePosition r (sourcePosition (pc s)) s) = Some (Returned b, s') \<and>
      (b \<and> sourcePosition (pc s') \<noteq> sourceEndPosition (pc s') \<longrightarrow>
         I s' \<and> sourceEndPosition (pc s') - sourcePosition (pc s')
              < sourceEndPosition (pc s) - sourcePosition (pc s))"
    by blast
qed

text \<open>
  The loop never returns when, from the machine it starts on, every iteration accepts short
  of the end of the input.
\<close>

lemma grow_diverges:
  assumes "J st"
    and step: "\<And>s. J s \<Longrightarrow>
        \<exists>s'. child (setParsePosition r (sourcePosition (pc s)) s) = Some (Returned True, s') \<and>
          sourcePosition (pc s') \<noteq> sourceEndPosition (pc s') \<and> J s'"
  shows "grow r child st = None"
proof (cases "grow r child st")
  case None
  then show ?thesis .
next
  case (Some y)
  have "r = r \<and> child = child \<and> J st \<longrightarrow> False"
  proof (rule grow.raw_induct
      [where P = "\<lambda>r' child' s y. r' = r \<and> child' = child \<and> J s \<longrightarrow> False", OF _ Some])
    fix grow' r' child' s y'
    assume IH: "\<And>r'' child'' s'' y''. grow' r'' child'' s'' = Some y''
                  \<Longrightarrow> r'' = r \<and> child'' = child \<and> J s'' \<longrightarrow> False"
      and body: "(case child' (setParsePosition r' (sourcePosition (pc s)) s) of
         None \<Rightarrow> None
       | Some (Returned result, st1) \<Rightarrow>
           if \<not> result then Some (Returned True, st1)
           else if sourcePosition (pc st1) = sourceEndPosition (pc st1)
                then Some (Returned True, st1) else grow' r' child' st1
       | Some (LeftRecursionException x, st1) \<Rightarrow> Some (LeftRecursionException x, st1)) = Some y'"
    show "r' = r \<and> child' = child \<and> J s \<longrightarrow> False"
    proof
      assume a: "r' = r \<and> child' = child \<and> J s"
      with step [of s] obtain s' where
        s': "child (setParsePosition r (sourcePosition (pc s)) s) = Some (Returned True, s')"
        "sourcePosition (pc s') \<noteq> sourceEndPosition (pc s')" "J s'" by blast
      with body a have "grow' r child s' = Some y'" by simp
      with IH [of r child s' y'] s'(3) show False by simp
    qed
  qed
  with assms(1) show ?thesis by simp
qed

subsection \<open>The left-recursive alternative of \<open>E = E '+' 'n' | 'n'\<close>\<close>

lemma sum_alt_unfold:
  "sum_alt = SequenceParser [Rule_call 0 (run 1 G_sum (G_sum 0)),
                             TerminalParser CHR ''+'', TerminalParser CHR ''n'']"
  by (simp add: sum_alt_def eval_nat_numeral)

lemma sum_alt_throws:
  "sum_alt (in_frame ''n+n'') = Some (LeftRecursionException 0, in_frame ''n+n'')"
  by (simp add: sum_alt_unfold SequenceParser_def Rule_call_def in_frame_def newContext_def)

lemma sum_alt_advances: "advances accepting 0 sum_alt"
  unfolding advances_def accepting_def sum_alt_unfold
  by (auto simp: SequenceParser_def Rule_call_def TerminalParser_def setParsePosition_def
      state_def setState_def sourceEndPosition_def Let_def)

lemma sum_seed:
  "parseTuple [run 3 G_sum (Terminal CHR ''n'')] (setRejectState 0 (in_frame ''n+n''))
     = Some (Returned True,
             (setRejectState 0 (in_frame ''n+n''))\<lparr>pc := (newContext ''n+n'')\<lparr>sourcePosition := 1\<rparr>\<rparr>)"
  by (simp add: eval_nat_numeral TerminalParser_def in_frame_def newContext_def
      setRejectState_def sourceEndPosition_def)

lemma sum_seeded:
  "setAcceptState 0
     ((setRejectState 0 (in_frame ''n+n''))\<lparr>pc := (newContext ''n+n'')\<lparr>sourcePosition := 1\<rparr>\<rparr>) = seeded"
  by (simp add: seeded_def in_frame_def setAcceptState_def setRejectState_def)

lemma sum_grow: "outcome_and_cursor (grow 0 sum_alt seeded) = Some (Returned True, 3)"
  by code_simp

subsection \<open>The first alternative of \<open>E = E '+' 'n' | E | 'n'\<close>\<close>

lemma seed_alt_unfold:
  "seed_alt = SequenceParser [Rule_call 0 (run 1 G_seed (G_seed 0)),
                              TerminalParser CHR ''+'', TerminalParser CHR ''n'']"
  by (simp add: seed_alt_def eval_nat_numeral)

lemma seed_alt_throws:
  "seed_alt (in_frame ''n+n'') = Some (LeftRecursionException 0, in_frame ''n+n'')"
  by (simp add: seed_alt_unfold SequenceParser_def Rule_call_def in_frame_def newContext_def)


text \<open>
  In the seed phase the second alternative, the rule itself, rejects at once because the rule
  is in state \<open>Reject\<close> at the cursor, and the third gives the seed.
\<close>

lemma seed_seed:
  "parseTuple [run 3 G_seed (RuleReference 0), run 3 G_seed (Terminal CHR ''n'')]
       (setRejectState 0 (in_frame ''n+n''))
     = Some (Returned True,
             (setRejectState 0 (in_frame ''n+n''))\<lparr>pc := (newContext ''n+n'')\<lparr>sourcePosition := 1\<rparr>\<rparr>)"
  by (simp add: eval_nat_numeral Rule_call_def TerminalParser_def in_frame_def newContext_def
      setRejectState_def sourceEndPosition_def state_def setState_def)


subsection \<open>The first alternative of \<open>E = E Q | 'a'\<close>, \<open>Q = Q 'b' | 'c'\<close>\<close>




subsection \<open>Left recursion caught by the choice\<close>



lemma setParsePosition_fields:
  "m_parsePosition (rules (setParsePosition r p st) r) = Some p"
  "m_state (rules (setParsePosition r p st) r) = m_state (rules st r)"
  "q \<noteq> r \<Longrightarrow> rules (setParsePosition r p st) q = rules st q"
  by (simp_all add: setParsePosition_def)





subsection \<open>When the grow loop ends\<close>

text \<open>
  Claim C3, amended. The grow loop ends after an iteration in which the alternative rejects,
  and after an accepted iteration that leaves the cursor at the end of the input; in both
  cases the choice returns success. After an accepted iteration that leaves the cursor short
  of the end, the loop goes on from there, whether the cursor has moved or not. So the loop
  returns whenever the alternative advances in the sense of \<open>advances\<close>; an alternative that
  accepts without moving the cursor, short of the end, keeps it running for ever.
\<close>

theorem grow_loop_exits:
  "(child (setParsePosition r (sourcePosition (pc st)) st) = Some (Returned False, st1) \<longrightarrow>
      grow r child st = Some (Returned True, st1)) \<and>
   (child (setParsePosition r (sourcePosition (pc st)) st) = Some (Returned True, st1) \<and>
    sourcePosition (pc st1) = sourceEndPosition (pc st1) \<longrightarrow>
      grow r child st = Some (Returned True, st1)) \<and>
   (child (setParsePosition r (sourcePosition (pc st)) st) = Some (Returned True, st1) \<and>
    sourcePosition (pc st1) \<noteq> sourceEndPosition (pc st1) \<longrightarrow>
      grow r child st = grow r child st1) \<and>
   (I st \<and> advances I r child \<longrightarrow> (\<exists>st'. grow r child st = Some (Returned True, st')))"
proof (intro conjI impI)
  assume "child (setParsePosition r (sourcePosition (pc st)) st) = Some (Returned False, st1)"
  then show "grow r child st = Some (Returned True, st1)" by (rule grow_unfold_reject)
next
  assume "child (setParsePosition r (sourcePosition (pc st)) st) = Some (Returned True, st1) \<and>
    sourcePosition (pc st1) = sourceEndPosition (pc st1)"
  then show "grow r child st = Some (Returned True, st1)" by (simp add: grow_unfold_end)
next
  assume "child (setParsePosition r (sourcePosition (pc st)) st) = Some (Returned True, st1) \<and>
    sourcePosition (pc st1) \<noteq> sourceEndPosition (pc st1)"
  then show "grow r child st = grow r child st1" by (simp add: grow_unfold_continue)
next
  assume "I st \<and> advances I r child"
  then show "\<exists>st'. grow r child st = Some (Returned True, st')"
    using grow_returns_advancing [of I st r child] by simp
qed

theorem grow_loop_exits_witness:
  "accepting seeded \<and> (\<exists>st'. grow 0 sum_alt seeded = Some (Returned True, st')) \<and>
   outcome_and_cursor (grow 0 sum_alt seeded) = Some (Returned True, 3)"
proof -
  have acc: "accepting seeded" by (simp add: accepting_def seeded_def)
  from acc sum_alt_advances
    grow_loop_exits [where I = accepting and st = seeded and r = 0 and child = sum_alt,
      THEN conjunct2, THEN conjunct2, THEN conjunct2]
  have "\<exists>st'. grow 0 sum_alt seeded = Some (Returned True, st')" by simp
  with acc sum_grow show ?thesis by (intro conjI)
qed

lemma parseTuple_catch:
  assumes "child st = Some (LeftRecursionException r, st1)"
    and "parseTuple children (setRejectState r st1) = Some (Returned True, st2)"
  shows "parseTuple (child # children) st = grow r child (setAcceptState r st2)"
  using assms by simp

lemma G_loop_grow:
  assumes "m_state (rules s 0) = Accept" "sourcePosition (pc s) = 1" "source (pc s) = ''ab''"
  shows "grow 0 (Rule_call 0 body) s = None"
proof (rule grow_diverges
    [where J = "\<lambda>s::machine. m_state (rules s 0) = Accept \<and> sourcePosition (pc s) = 1 \<and> source (pc s) = ''ab''"])
  show "m_state (rules s 0) = Accept \<and> sourcePosition (pc s) = 1 \<and> source (pc s) = ''ab''"
    using assms by simp
next
  fix s :: machine
  assume "m_state (rules s 0) = Accept \<and> sourcePosition (pc s) = 1 \<and> source (pc s) = ''ab''"
  then have "Rule_call 0 body (setParsePosition 0 (sourcePosition (pc s)) s)
               = Some (Returned True, setParsePosition 0 (sourcePosition (pc s)) s)
           \<and> sourcePosition (pc (setParsePosition 0 (sourcePosition (pc s)) s))
               \<noteq> sourceEndPosition (pc (setParsePosition 0 (sourcePosition (pc s)) s))
           \<and> m_state (rules (setParsePosition 0 (sourcePosition (pc s)) s) 0) = Accept
           \<and> sourcePosition (pc (setParsePosition 0 (sourcePosition (pc s)) s)) = 1
           \<and> source (pc (setParsePosition 0 (sourcePosition (pc s)) s)) = ''ab''"
    by (simp add: Rule_call_def setParsePosition_def sourceEndPosition_def)
  then show "\<exists>s'. Rule_call 0 body (setParsePosition 0 (sourcePosition (pc s)) s) = Some (Returned True, s')
      \<and> sourcePosition (pc s') \<noteq> sourceEndPosition (pc s')
      \<and> (m_state (rules s' 0) = Accept \<and> sourcePosition (pc s') = 1 \<and> source (pc s') = ''ab'')"
    by blast
qed

lemma G_loop_choice:
  "parseTuple [Rule_call 0 body, TerminalParser CHR ''a''] (in_frame ''ab'') = None"
proof -
  have t: "Rule_call 0 body (in_frame ''ab'') = Some (LeftRecursionException 0, in_frame ''ab'')"
    by (simp add: Rule_call_def in_frame_def newContext_def)
  have s: "parseTuple [TerminalParser CHR ''a''] (setRejectState 0 (in_frame ''ab''))
             = Some (Returned True,
                 (setRejectState 0 (in_frame ''ab''))\<lparr>pc := (newContext ''ab'')\<lparr>sourcePosition := 1\<rparr>\<rparr>)"
    by (simp add: TerminalParser_def in_frame_def newContext_def setRejectState_def
        sourceEndPosition_def)
  have g: "grow 0 (Rule_call 0 body) (setAcceptState 0
             ((setRejectState 0 (in_frame ''ab''))\<lparr>pc := (newContext ''ab'')\<lparr>sourcePosition := 1\<rparr>\<rparr>)) = None"
    by (rule G_loop_grow) (simp_all add: setAcceptState_def setRejectState_def newContext_def)
  from parseTuple_catch [where child = "Rule_call 0 body" and st = "in_frame ''ab''", OF t s] g
  show ?thesis by (simp only:)
qed

lemma start_enters:
  "Rule_call 0 body (start input) =
     (case body (in_frame input) of
        None \<Rightarrow> None
      | Some (LeftRecursionException x, st2) \<Rightarrow> Some (LeftRecursionException x, st2)
      | Some (Returned result, st2) \<Rightarrow>
          Some (Returned result,
                st2\<lparr>rules := (rules st2)(0 := \<lparr>m_parsePosition = None, m_state = Normal\<rparr>)\<rparr>))"
  by (simp add: Rule_call_def Let_def start_def in_frame_def newContext_def newRule_def)

text \<open>
  The counterexample to claim C3 as stated: with \<open>R = R | 'a'\<close> on the input \<open>ab\<close>, the seed
  \<open>'a'\<close> moves the cursor to 1; from then on every iteration of the grow loop calls \<open>R\<close>, which
  is in state \<open>Accept\<close> at the cursor and returns true without moving it, and the cursor is
  not at the end. The parse does not return, whatever the depth of calls allowed.
\<close>

theorem grow_loop_runs_forever:
  "\<forall>n. run n G_loop (RuleReference 0) (start ''ab'') = None"
proof
  fix n
  show "run n G_loop (RuleReference 0) (start ''ab'') = None"
  proof (cases n)
    case 0
    then show ?thesis by simp
  next
    case n1: (Suc n1)
    have enter: "run n G_loop (RuleReference 0) (start ''ab'') =
        (case run n1 G_loop (G_loop 0) (in_frame ''ab'') of
           None \<Rightarrow> None
         | Some (LeftRecursionException x, st2) \<Rightarrow> Some (LeftRecursionException x, st2)
         | Some (Returned result, st2) \<Rightarrow>
             Some (Returned result,
                   st2\<lparr>rules := (rules st2)(0 := \<lparr>m_parsePosition = None, m_state = Normal\<rparr>)\<rparr>))"
      unfolding n1 by (simp only: run.simps expr.case start_enters)
    have "run n1 G_loop (G_loop 0) (in_frame ''ab'') = None"
    proof (cases n1)
      case 0
      then show ?thesis by simp
    next
      case n2: (Suc n2)
      show ?thesis
      proof (cases n2)
        case 0
        then show ?thesis unfolding n2
          by (simp add: G_loop_def ChoiceParser_def)
      next
        case (Suc k)
        have "run n1 G_loop (G_loop 0) (in_frame ''ab'')
                = parseTuple [Rule_call 0 (run k G_loop (G_loop 0)), TerminalParser CHR ''a'']
                    (in_frame ''ab'')"
          unfolding n2 Suc
          by (simp only: run.simps G_loop_def expr.case list.map ChoiceParser_def)
        with G_loop_choice show ?thesis by (simp only:)
      qed
    qed
    with enter show ?thesis by simp
  qed
qed

subsection \<open>The depth of calls\<close>

lemma refinesD:
  "refines p q \<Longrightarrow> p s = Some y \<Longrightarrow> q s = Some y"
  unfolding refines_def by blast

lemma grow_mono:
  assumes pq: "refines p q" and run: "grow r p s = Some y"
  shows "grow r q s = Some y"
proof -
  have "p = p \<longrightarrow> grow r q s = Some y"
  proof (rule grow.raw_induct [where P = "\<lambda>r' p' s y. p' = p \<longrightarrow> grow r' q s = Some y", OF _ run])
    fix grow' r' p' s y
    assume IH: "\<And>r'' p'' s'' y''. grow' r'' p'' s'' = Some y''
                  \<Longrightarrow> p'' = p \<longrightarrow> grow r'' q s'' = Some y''"
      and body: "(case p' (setParsePosition r' (sourcePosition (pc s)) s) of
         None \<Rightarrow> None
       | Some (Returned result, st1) \<Rightarrow>
           if \<not> result then Some (Returned True, st1)
           else if sourcePosition (pc st1) = sourceEndPosition (pc st1)
                then Some (Returned True, st1) else grow' r' p' st1
       | Some (LeftRecursionException x, st1) \<Rightarrow> Some (LeftRecursionException x, st1)) = Some y"
    show "p' = p \<longrightarrow> grow r' q s = Some y"
    proof
      assume p': "p' = p"
      from body obtain out s1 where
        c: "p (setParsePosition r' (sourcePosition (pc s)) s) = Some (out, s1)"
        unfolding p' by (auto split: option.splits)
      from refinesD [OF pq c]
      have q: "q (setParsePosition r' (sourcePosition (pc s)) s) = Some (out, s1)" .
      show "grow r' q s = Some y"
      proof (cases out)
        case (LeftRecursionException x)
        with body c p' have "y = (LeftRecursionException x, s1)" by simp
        with q LeftRecursionException show ?thesis by (subst grow.simps) simp
      next
        case (Returned b)
        show ?thesis
        proof (cases "b \<and> sourcePosition (pc s1) \<noteq> sourceEndPosition (pc s1)")
          case True
          with body c p' Returned have "grow' r' p s1 = Some y" by simp
          with IH [of r' p s1 y] have "grow r' q s1 = Some y" by simp
          with True q Returned show ?thesis by (subst grow.simps) simp
        next
          case False
          with body c p' Returned have "y = (Returned True, s1)" by (auto split: if_splits)
          with False q Returned show ?thesis by (subst grow.simps) auto
        qed
      qed
    qed
  qed
  then show ?thesis by simp
qed

lemma parseTuple_mono:
  "list_all2 refines ps qs \<Longrightarrow> parseTuple ps s = Some y \<Longrightarrow> parseTuple qs s = Some y"
proof (induction ps qs arbitrary: s y rule: list_all2_induct)
  case Nil
  then show ?case by simp
next
  case (Cons p ps q qs)
  from Cons.prems obtain out s1 where c: "p s = Some (out, s1)"
    by (auto split: option.splits)
  from refinesD [OF Cons.hyps(1) c] have q: "q s = Some (out, s1)" .
  show ?case
  proof (cases out)
    case (Returned b)
    with Cons.prems c q Cons.IH show ?thesis by (cases b) auto
  next
    case (LeftRecursionException r)
    with Cons.prems c obtain o2 s2 where seed: "parseTuple ps (setRejectState r s1) = Some (o2, s2)"
      by (auto split: option.splits)
    from Cons.IH [OF seed] have seed': "parseTuple qs (setRejectState r s1) = Some (o2, s2)" .
    show ?thesis
    proof (cases o2)
      case (Returned b)
      with Cons.prems c q seed seed' LeftRecursionException grow_mono [OF Cons.hyps(1)]
      show ?thesis by (cases b) auto
    next
      case L2: (LeftRecursionException x)
      with Cons.prems c q seed seed' LeftRecursionException show ?thesis by auto
    qed
  qed
qed

lemma parseSequence_mono:
  "list_all2 refines ps qs \<Longrightarrow> parseSequence ps s = Some y \<Longrightarrow> parseSequence qs s = Some y"
proof (induction ps qs arbitrary: s y rule: list_all2_induct)
  case Nil
  then show ?case by simp
next
  case (Cons p ps q qs)
  from Cons.prems obtain out s1 where c: "p s = Some (out, s1)"
    by (auto split: option.splits)
  from refinesD [OF Cons.hyps(1) c] have q: "q s = Some (out, s1)" .
  with Cons.prems c Cons.IH show ?case
    by (auto split: outcome.splits if_splits)
qed

lemma SequenceParser_mono:
  assumes "list_all2 refines ps qs"
  shows "refines (SequenceParser ps) (SequenceParser qs)"
  unfolding refines_def
proof (intro allI impI)
  fix s y
  assume a: "SequenceParser ps s = Some y"
  then obtain z where z: "parseSequence ps s = Some z"
    by (auto simp: SequenceParser_def Let_def split: option.splits)
  from parseSequence_mono [OF assms z] a z show "SequenceParser qs s = Some y"
    by (simp add: SequenceParser_def Let_def)
qed

lemma ChoiceParser_mono:
  assumes "list_all2 refines ps qs"
  shows "refines (ChoiceParser ps) (ChoiceParser qs)"
  unfolding refines_def ChoiceParser_def using parseTuple_mono [OF assms] by blast

lemma Rule_call_mono:
  "refines p q \<Longrightarrow> refines (Rule_call r p) (Rule_call r q)"
  unfolding refines_def Rule_call_def Let_def
  by (auto split: option.splits State.splits)

lemma run_Suc: "refines (run n g e) (run (Suc n) g e)"
proof (induction n arbitrary: e)
  case 0
  show ?case by (simp add: refines_def)
next
  case (Suc n)
  have l: "list_all2 refines (map (run n g) es) (map (run (Suc n) g) es)" for es
    using Suc.IH by (simp add: list_all2_conv_all_nth)
  show ?case
  proof (cases e)
    case (Terminal ch)
    then show ?thesis by (simp add: refines_def)
  next
    case (Sequence es)
    with SequenceParser_mono [OF l] show ?thesis by simp
  next
    case (Choice es)
    with ChoiceParser_mono [OF l] show ?thesis by simp
  next
    case (RuleReference r)
    with Rule_call_mono [OF Suc.IH] show ?thesis by simp
  qed
qed

text \<open>A call that returns within some depth of nested calls returns the same within any greater.\<close>

lemma run_mono: "run n g e s = Some y \<Longrightarrow> run (n + k) g e s = Some y"
proof (induction k)
  case 0
  then show ?case by simp
next
  case (Suc k)
  with refinesD [OF run_Suc] show ?case by simp
qed

lemma outcome_and_rule_mono:
  assumes "outcome_and_rule r (run n g e s) = Some z"
  shows "outcome_and_rule r (run (n + k) g e s) = Some z"
proof -
  from assms obtain y where "run n g e s = Some y" "outcome_and_rule r (Some y) = Some z"
    by (cases "run n g e s") (auto simp: outcome_and_rule_def)
  with run_mono [of n g e s y k] show ?thesis by simp
qed

lemma parse_twice_mono:
  assumes "parse_twice n g e input = Some z"
  shows "parse_twice (n + k) g e input = Some z"
proof -
  from assms obtain out1 st1 out2 st2 where
    "run n g e (start input) = Some (out1, st1)"
    "run n g e (restart input st1) = Some (out2, st2)"
    "z = ((out1, sourcePosition (pc st1)), (out2, sourcePosition (pc st2)))"
    by (auto simp: parse_twice_def split: option.splits)
  with run_mono [of n g e "start input" "(out1, st1)" k]
       run_mono [of n g e "restart input st1" "(out2, st2)" k]
  show ?thesis by (simp add: parse_twice_def)
qed

subsection \<open>Exit from a rule by an exception\<close>

text \<open>
  When the body throws, \<open>Rule::operator()\<close> throws the same exception and the machine is the
  one the body left: the two assignments that put the saved fields back are not reached.
\<close>

lemma Rule_call_body_throws:
  assumes "m_parsePosition (rules st r) \<noteq> Some (sourcePosition (pc st))"
    and "m_parser (st\<lparr>rules := (rules st)
            (r := \<lparr>m_parsePosition = Some (sourcePosition (pc st)), m_state = Normal\<rparr>)\<rparr>)
           = Some (LeftRecursionException x, st2)"
  shows "Rule_call r m_parser st = Some (LeftRecursionException x, st2)"
  using assms by (simp add: Rule_call_def Let_def)

text \<open>When the body returns, the two fields of the rule are what they were before the call.\<close>

lemma Rule_call_restores:
  assumes "Rule_call r m_parser st = Some (Returned b, st')"
  shows "rules st' r = rules st r"
  using assms
  by (auto simp: Rule_call_def Let_def split: if_splits State.splits option.splits outcome.splits)

lemma G_sum_no_seed:
  "outcome_and_rule 0 (run 4 G_sum (RuleReference 0) (start ''x''))
     = Some (LeftRecursionException 0, \<lparr>m_parsePosition = Some 0, m_state = Reject\<rparr>)"
  by code_simp

text \<open>
  Claim C4, at an input where the code departs from it. The rule \<open>E = E '+' 'n' | 'n'\<close> is
  new (no position, state \<open>Normal\<close>) and is invoked on the input \<open>x\<close>. Its body throws the
  left-recursion exception, since no alternative gives a seed; the invocation ends by that
  exception and the rule is left with the position 0 and the state \<open>Reject\<close>, not with the
  values it had on entry. This holds at every depth of calls from 4 on.
\<close>

theorem Rule_call_exception_skips_restore:
  "rules (start ''x'') 0 = \<lparr>m_parsePosition = None, m_state = Normal\<rparr> \<and>
   outcome_and_rule 0 (run (4 + k) G_sum (RuleReference 0) (start ''x''))
     = Some (LeftRecursionException 0, \<lparr>m_parsePosition = Some 0, m_state = Reject\<rparr>)"
  using outcome_and_rule_mono [OF G_sum_no_seed, of k]
  by (simp add: start_def newRule_def)

subsection \<open>Rejection of a choice\<close>

lemma extends_refl: "extends st st"
  by (simp add: extends_def)

lemma extends_trans:
  assumes "extends a b" "extends b c"
  shows "extends a c"
proof -
  from assms(1) have "length (matches (pc a)) \<le> length (matches (pc b))"
    unfolding extends_def by (metis length_take min.cobounded1)
  then have "take (length (matches (pc a))) (matches (pc c))
        = take (length (matches (pc a))) (take (length (matches (pc b))) (matches (pc c)))"
    by (simp add: min_def)
  with assms show ?thesis by (simp add: extends_def)
qed

lemma extends_rollback:
  "extends st st1 \<Longrightarrow> matches (pc (st1\<lparr>pc := setState (state (pc st)) (pc st1)\<rparr>)) = matches (pc st)"
  by (simp add: extends_def setState_def state_def)

lemma parseTuple_rejects_iff:
  "parseTuple children st = Some (Returned False, st') \<longleftrightarrow>
     alternatives_reject children st = Some st'"
proof (induction children arbitrary: st)
  case Nil
  show ?case by auto
next
  case (Cons child children)
  show ?case
  proof (cases "child st")
    case None
    then show ?thesis by simp
  next
    case (Some y)
    obtain out st1 where y: "y = (out, st1)" by (cases y)
    show ?thesis
    proof (cases out)
      case (Returned b)
      with Some y Cons.IH show ?thesis by (cases b) simp_all
    next
      case (LeftRecursionException r)
      have "parseTuple (child # children) st \<noteq> Some (Returned False, st')"
        using Some y LeftRecursionException grow_never_rejects [of r child _ False st']
        by (auto split: option.splits outcome.splits if_splits)
      with Some y LeftRecursionException show ?thesis by simp
    qed
  qed
qed

lemma alternatives_reject_cursor:
  "alternatives_reject children st = Some st' \<Longrightarrow> sourcePosition (pc st') = sourcePosition (pc st)"
proof (induction children arbitrary: st)
  case Nil
  then show ?case by simp
next
  case (Cons child children)
  then show ?case
    by (auto split: option.splits outcome.splits bool.splits simp: setState_def state_def)
qed

lemma alternatives_reject_matches:
  "\<forall>child\<in>set children. keeps_matches child \<Longrightarrow> alternatives_reject children st = Some st'
     \<Longrightarrow> matches (pc st') = matches (pc st)"
proof (induction children arbitrary: st)
  case Nil
  then show ?case by simp
next
  case (Cons child children)
  from Cons.prems(2) obtain st1 where
    c: "child st = Some (Returned False, st1)"
    and r: "alternatives_reject children (st1\<lparr>pc := setState (state (pc st)) (pc st1)\<rparr>) = Some st'"
    by (auto split: option.splits outcome.splits bool.splits)
  from Cons.prems(1) c have "extends st st1"
    unfolding keeps_matches_def by auto
  moreover from Cons.IH [OF _ r] Cons.prems(1)
  have "matches (pc st') = matches (pc (st1\<lparr>pc := setState (state (pc st)) (pc st1)\<rparr>))" by simp
  ultimately show ?case by (simp only: extends_rollback)
qed

text \<open>
  The parsers of this development keep the matches: terminals, sequences, rules and choices,
  and so every expression.
\<close>

lemma keeps_matches_TerminalParser: "keeps_matches (TerminalParser ch)"
  by (auto simp: keeps_matches_def extends_def TerminalParser_def Let_def split: if_splits)

lemma keeps_matches_Rule_call:
  assumes "keeps_matches p"
  shows "keeps_matches (Rule_call r p)"
  unfolding keeps_matches_def
proof (intro allI impI)
  fix st out st'
  assume a: "Rule_call r p st = Some (out, st')"
  show "extends st st'"
  proof (cases "m_parsePosition (rules st r) = Some (sourcePosition (pc st))")
    case True
    with a have "st' = st" by (auto simp: Rule_call_def split: State.splits)
    then show ?thesis by (simp add: extends_refl)
  next
    case False
    let ?st1 = "st\<lparr>rules := (rules st)
                  (r := \<lparr>m_parsePosition = Some (sourcePosition (pc st)), m_state = Normal\<rparr>)\<rparr>"
    from a False obtain o2 st2 where b: "p ?st1 = Some (o2, st2)" and pc: "pc st' = pc st2"
      by (auto simp: Rule_call_def Let_def split: option.splits outcome.splits)
    from assms b have "extends ?st1 st2" unfolding keeps_matches_def by blast
    then have "extends st st2" by (simp add: extends_def)
    with pc show ?thesis by (simp add: extends_def)
  qed
qed

lemma grow_extends:
  assumes k: "keeps_matches child" and run: "grow r child st = Some y"
  shows "extends st (snd y)"
proof -
  have "child = child \<longrightarrow> extends st (snd y)"
  proof (rule grow.raw_induct [where P = "\<lambda>_ c s y. c = child \<longrightarrow> extends s (snd y)", OF _ run])
    fix grow' r' c s y
    assume IH: "\<And>r'' c'' s'' y''. grow' r'' c'' s'' = Some y'' \<Longrightarrow> c'' = child \<longrightarrow> extends s'' (snd y'')"
      and body: "(case c (setParsePosition r' (sourcePosition (pc s)) s) of
         None \<Rightarrow> None
       | Some (Returned result, st1) \<Rightarrow>
           if \<not> result then Some (Returned True, st1)
           else if sourcePosition (pc st1) = sourceEndPosition (pc st1)
                then Some (Returned True, st1) else grow' r' c st1
       | Some (LeftRecursionException x, st1) \<Rightarrow> Some (LeftRecursionException x, st1)) = Some y"
    show "c = child \<longrightarrow> extends s (snd y)"
    proof
      assume c: "c = child"
      from body obtain out s1 where
        b: "child (setParsePosition r' (sourcePosition (pc s)) s) = Some (out, s1)"
        unfolding c by (auto split: option.splits)
      from k b have "extends (setParsePosition r' (sourcePosition (pc s)) s) s1"
        unfolding keeps_matches_def by blast
      then have e: "extends s s1" by (simp add: extends_def)
      show "extends s (snd y)"
      proof (cases "\<exists>b. out = Returned b \<and> b \<and> sourcePosition (pc s1) \<noteq> sourceEndPosition (pc s1)")
        case True
        with body b c have "grow' r' child s1 = Some y" by auto
        with IH [of r' child s1 y] have "extends s1 (snd y)" by simp
        with e show ?thesis by (rule extends_trans)
      next
        case False
        with body b c have "snd y = s1"
          by (cases out) (auto split: if_splits)
        with e show ?thesis by simp
      qed
    qed
  qed
  then show ?thesis by simp
qed

lemma parseTuple_extends:
  "\<forall>child\<in>set children. keeps_matches child \<Longrightarrow> parseTuple children st = Some y
     \<Longrightarrow> extends st (snd y)"
proof (induction children arbitrary: st y)
  case Nil
  then show ?case by (auto simp: extends_refl)
next
  case (Cons child children)
  from Cons.prems(2) obtain out st1 where c: "child st = Some (out, st1)"
    by (auto split: option.splits)
  from Cons.prems(1) c have e: "extends st st1" unfolding keeps_matches_def by auto
  from Cons.prems(1) have ks: "\<forall>child\<in>set children. keeps_matches child" by simp
  show ?case
  proof (cases out)
    case (Returned b)
    show ?thesis
    proof (cases b)
      case True
      with Returned c Cons.prems(2) e show ?thesis by auto
    next
      case False
      let ?st1 = "st1\<lparr>pc := setState (state (pc st)) (pc st1)\<rparr>"
      from False Returned c Cons.prems(2) have "parseTuple children ?st1 = Some y" by simp
      from Cons.IH [OF ks this] have "extends ?st1 (snd y)" .
      moreover from extends_rollback [OF e] have "extends st ?st1" by (simp add: extends_def)
      ultimately show ?thesis using extends_trans by blast
    qed
  next
    case (LeftRecursionException r)
    with c Cons.prems(2) obtain o2 st2 where
      seed: "parseTuple children (setRejectState r st1) = Some (o2, st2)"
      by (auto split: option.splits)
    from Cons.IH [OF ks seed] have "extends (setRejectState r st1) st2" by simp
    then have "extends st1 st2" by (simp add: extends_def)
    with e have e2: "extends st st2" by (rule extends_trans)
    show ?thesis
    proof (cases "o2 = Returned True")
      case True
      with LeftRecursionException c seed Cons.prems(2)
      have "grow r child (setAcceptState r st2) = Some y" by simp
      from grow_extends [OF _ this] Cons.prems(1)
      have "extends (setAcceptState r st2) (snd y)" by simp
      then have "extends st2 (snd y)" by (simp add: extends_def)
      with e2 show ?thesis by (rule extends_trans)
    next
      case False
      with LeftRecursionException c seed Cons.prems(2) have "snd y = st2"
        by (cases o2) (auto split: if_splits)
      with e2 show ?thesis by simp
    qed
  qed
qed

lemma keeps_matches_ChoiceParser:
  "\<forall>child\<in>set children. keeps_matches child \<Longrightarrow> keeps_matches (ChoiceParser children)"
  unfolding keeps_matches_def [of "ChoiceParser children"] ChoiceParser_def
  using parseTuple_extends by fastforce

lemma parseSequence_extends:
  "\<forall>child\<in>set children. keeps_matches child \<Longrightarrow> parseSequence children st = Some y
     \<Longrightarrow> extends st (snd y)"
proof (induction children arbitrary: st y)
  case Nil
  then show ?case by (auto simp: extends_refl)
next
  case (Cons child children)
  from Cons.prems(2) obtain out st1 where c: "child st = Some (out, st1)"
    by (auto split: option.splits)
  from Cons.prems(1) c have e: "extends st st1" unfolding keeps_matches_def by auto
  from Cons.prems(1) have ks: "\<forall>child\<in>set children. keeps_matches child" by simp
  show ?case
  proof (cases "out = Returned True")
    case True
    with c Cons.prems(2) have "parseSequence children st1 = Some y" by simp
    from Cons.IH [OF ks this] e show ?thesis using extends_trans by blast
  next
    case False
    with c Cons.prems(2) have "snd y = st1"
      by (cases out) (auto split: if_splits)
    with e show ?thesis by simp
  qed
qed

lemma keeps_matches_SequenceParser:
  assumes "\<forall>child\<in>set children. keeps_matches child"
  shows "keeps_matches (SequenceParser children)"
  unfolding keeps_matches_def
proof (intro allI impI)
  fix st out st'
  assume a: "SequenceParser children st = Some (out, st')"
  then obtain o1 st1 where s: "parseSequence children st = Some (o1, st1)"
    by (auto simp: SequenceParser_def Let_def split: option.splits)
  from parseSequence_extends [OF assms s] have e: "extends st st1" by simp
  show "extends st st'"
  proof (cases "o1 = Returned False")
    case True
    with a s have "st' = st1\<lparr>pc := setState (state (pc st)) (pc st1)\<rparr>"
      by (simp add: SequenceParser_def Let_def)
    with extends_rollback [OF e] show ?thesis by (simp add: extends_def)
  next
    case False
    with a s have "st' = st1"
      by (cases o1) (auto simp: SequenceParser_def Let_def split: if_splits)
    with e show ?thesis by simp
  qed
qed

lemma keeps_matches_run: "keeps_matches (run n g e)"
proof (induction n arbitrary: e)
  case 0
  show ?case by (simp add: keeps_matches_def)
next
  case (Suc n)
  show ?case
  proof (cases e)
    case (Terminal ch)
    then show ?thesis by (simp add: keeps_matches_TerminalParser)
  next
    case (Sequence es)
    with Suc keeps_matches_SequenceParser [of "map (run n g) es"] show ?thesis by simp
  next
    case (Choice es)
    with Suc keeps_matches_ChoiceParser [of "map (run n g) es"] show ?thesis by simp
  next
    case (RuleReference r)
    with Suc keeps_matches_Rule_call show ?thesis by simp
  qed
qed

text \<open>
  Claim C5. An ordered choice whose alternatives keep the matches (as every parser of the
  engine does) rejects exactly when every alternative, tried in order, rejects, each after the
  context was put back to the snapshot taken before the alternative before it; and when the
  choice rejects, the cursor and the match list are those of before the choice.
\<close>

theorem choice_rejection_rolls_back:
  assumes "\<forall>child\<in>set children. keeps_matches child"
  shows "(parseTuple children st = Some (Returned False, st') \<longleftrightarrow>
            alternatives_reject children st = Some st') \<and>
         (parseTuple children st = Some (Returned False, st') \<longrightarrow>
            sourcePosition (pc st') = sourcePosition (pc st) \<and>
            matches (pc st') = matches (pc st))"
  using assms parseTuple_rejects_iff alternatives_reject_cursor alternatives_reject_matches
  by blast

theorem choice_rejection_rolls_back_witness:
  "ChoiceParser [run 1 G_sum (Terminal CHR ''a''),
                 run 2 G_sum (Sequence [Terminal CHR ''b'', Terminal CHR ''a''])] (start ''bc'')
     = Some (Returned False, start ''bc'') \<and>
   alternatives_reject [run 1 G_sum (Terminal CHR ''a''),
                 run 2 G_sum (Sequence [Terminal CHR ''b'', Terminal CHR ''a''])] (start ''bc'')
     = Some (start ''bc'')"
proof -
  have r: "alternatives_reject [run 1 G_sum (Terminal CHR ''a''),
                 run 2 G_sum (Sequence [Terminal CHR ''b'', Terminal CHR ''a''])] (start ''bc'')
     = Some (start ''bc'')"
    by (simp add: eval_nat_numeral TerminalParser_def SequenceParser_def start_def newContext_def
        sourceEndPosition_def state_def setState_def)
  have k: "\<forall>child\<in>set [run 1 G_sum (Terminal CHR ''a''),
                 run 2 G_sum (Sequence [Terminal CHR ''b'', Terminal CHR ''a''])]. keeps_matches child"
    by (simp only: keeps_matches_run list.set ball_simps)
  from choice_rejection_rolls_back [OF k, THEN conjunct1, of "start ''bc''" "start ''bc''"] r
  show ?thesis by (simp only: ChoiceParser_def simp_thms)
qed

subsection \<open>Commitment of a choice\<close>

text \<open>
  Claim C6. When the first alternative of an ordered choice accepts, the choice returns what
  that alternative returned, verdict and machine: the cursor, the matches and the rules are
  those the alternative left. The alternatives after it play no part: the result is the same
  whatever they are, also when they would never return.
\<close>

theorem choice_commits:
  assumes "A st = Some (Returned True, st')"
  shows "ChoiceParser (A # Bs) st = A st"
  using assms by (simp add: ChoiceParser_def)

theorem choice_commits_witness:
  "TerminalParser CHR ''a'' (start ''ab'')
     = Some (Returned True, (start ''ab'')\<lparr>pc := (newContext ''ab'')\<lparr>sourcePosition := 1\<rparr>\<rparr>) \<and>
   ChoiceParser [TerminalParser CHR ''a'', hangs] (start ''ab'')
     = Some (Returned True, (start ''ab'')\<lparr>pc := (newContext ''ab'')\<lparr>sourcePosition := 1\<rparr>\<rparr>)"
proof -
  have a: "TerminalParser CHR ''a'' (start ''ab'')
     = Some (Returned True, (start ''ab'')\<lparr>pc := (newContext ''ab'')\<lparr>sourcePosition := 1\<rparr>\<rparr>)"
    by (simp add: TerminalParser_def start_def newContext_def sourceEndPosition_def)
  from choice_commits [where A = "TerminalParser CHR ''a''" and st = "start ''ab''"
      and Bs = "[hangs]", OF a] a
  show ?thesis by (simp only: simp_thms)
qed

subsection \<open>Two parses with the same rules\<close>

lemma G_twice_once:
  "parse_twice 7 G_twice (RuleReference 1) ''ba'' = Some ((Returned True, 1), (Returned True, 2))"
  by code_simp

text \<open>
  Claim C8, at an input where the code departs from it. The grammar is \<open>R = R 'a' | 'a'\<close> and
  \<open>T = 'b' R 'a' | R 'b' | 'b'\<close>, the input is \<open>ba\<close>, and \<open>T\<close> is parsed twice with the same
  \<open>Rule\<close> objects, each time on a new context. The first parse accepts with the cursor at
  1, the second accepts with the cursor at 2: the first leaves \<open>R\<close> in state \<open>Accept\<close> at
  position 1, and in the second the first alternative of \<open>T\<close> finds it so. This holds at every
  depth of calls from 7 on.
\<close>

theorem second_parse_differs:
  "parse_twice (7 + k) G_twice (RuleReference 1) ''ba''
     = Some ((Returned True, 1), (Returned True, 2))"
  using parse_twice_mono [OF G_twice_once, of k] .

text \<open>After the first of the two parses the rule \<open>R\<close> is in state \<open>Accept\<close> at position 1.\<close>

lemma G_twice_leaves_rule:
  "outcome_and_rule 0 (run 7 G_twice (RuleReference 1) (start ''ba''))
     = Some (Returned True, \<lparr>m_parsePosition = Some 1, m_state = Accept\<rparr>)"
  by code_simp

section \<open>Properties of the verdict-based engine\<close>

lemma positions_activate:
  "positions (snd (activate this c)) = (positions c)(this \<mapsto> stack this c @ [position c])"
  by (simp add: activate_def Let_def)

lemma stack_activate:
  "stack this (snd (activate this c)) = stack this c @ [position c]"
  by (simp add: activate_def stack_def Let_def)

lemma stack_activate_other:
  "r \<noteq> this \<Longrightarrow> stack r (snd (activate this c)) = stack r c"
  by (simp add: activate_def stack_def Let_def)

lemma activate_fields:
  "left_recursion (snd (activate this c)) = left_recursion c"
  "position (snd (activate this c)) = position c"
  "end_position (snd (activate this c)) = end_position c"
  by (simp_all add: activate_def Let_def)

lemma deactivate_Some:
  "deactivate this c = Some c' \<longleftrightarrow>
     stack this c \<noteq> [] \<and> c' = c\<lparr>positions := (positions c)(this \<mapsto> butlast (stack this c))\<rparr>"
  by (auto simp: deactivate_def stack_def split: option.splits)

lemma deactivate_None: "deactivate this c = None \<longleftrightarrow> stack this c = []"
  by (auto simp: deactivate_def stack_def split: option.splits)

lemma stack_deactivate:
  "deactivate this c = Some c' \<Longrightarrow> stack this c' = butlast (stack this c)"
  by (auto simp: deactivate_Some stack_def)

lemma stack_deactivate_other:
  "deactivate this c = Some c' \<Longrightarrow> r \<noteq> this \<Longrightarrow> stack r c' = stack r c"
  by (auto simp: deactivate_Some stack_def)

lemma left_recursion_deactivate:
  "deactivate this c = Some c' \<Longrightarrow> left_recursion c' = left_recursion c"
  by (auto simp: deactivate_Some)

lemma activate_classifies:
  "fst (activate this c) = (case rev (stack this (snd (activate this c))) of
                              a # b # _ \<Rightarrow> a = b | _ \<Rightarrow> False)"
proof (cases "stack this c" rule: rev_cases)
  case Nil
  then show ?thesis unfolding stack_activate by (simp add: activate_def Let_def)
next
  case (snoc ys y)
  then show ?thesis unfolding stack_activate by (simp add: activate_def Let_def nth_append)
qed

lemma activate_left_recursive:
  "fst (activate this c) \<longleftrightarrow> stack this c \<noteq> [] \<and> last (stack this c) = position c"
proof (cases "stack this c" rule: rev_cases)
  case Nil
  then show ?thesis by (simp add: activate_def Let_def)
next
  case (snoc ys y)
  then show ?thesis by (auto simp add: activate_def Let_def nth_append)
qed

text \<open>\<open>rule::parse\<close> is \<open>activate\<close>, the switch on the context so changed, and \<open>deactivate\<close>.\<close>

lemma rule_parse_unfold:
  "rule_parse this m_expression c =
     (case parse_switch (fst (activate this c)) m_expression (snd (activate this c)) of
        None \<Rightarrow> None
      | Some (res, c2) \<Rightarrow>
          (case deactivate this c2 of None \<Rightarrow> None | Some c3 \<Rightarrow> Some (res, c3)))"
  by (simp add: rule_parse_def split: prod.splits)

text \<open>Pushing the cursor and popping it again gives the context back, when the rule has a stack.\<close>

lemma deactivate_activate:
  assumes "stack this c \<noteq> []"
  shows "deactivate this ((snd (activate this c))\<lparr>left_recursion := l\<rparr>)
           = Some (c\<lparr>left_recursion := l\<rparr>)"
    and "deactivate this (snd (activate this c)) = Some c"
proof -
  from assms obtain ps where ps: "positions c this = Some ps" "ps \<noteq> []"
    by (auto simp: stack_def split: option.splits)
  then have "(positions c)(this \<mapsto> ps) = positions c" by (simp add: map_upd_triv)
  with ps show "deactivate this ((snd (activate this c))\<lparr>left_recursion := l\<rparr>)
           = Some (c\<lparr>left_recursion := l\<rparr>)"
    and "deactivate this (snd (activate this c)) = Some c"
    by (simp_all add: deactivate_def activate_def stack_def Let_def)
qed

text \<open>
  An invocation classified as left-recursive does not call the body: the verdict follows from
  the left-recursion state alone, and only in the inactive state is the context changed, by
  the record set to reject at the cursor.
\<close>

lemma rule_parse_left_recursive:
  assumes "fst (activate this c)"
  shows "rule_parse this m_expression c =
    Some (case state_lr (left_recursion c) of
            inactive \<Rightarrow> (rejected_left_recursion,
                          c\<lparr>left_recursion := \<lparr>state_lr = reject, position_lr = position c\<rparr>\<rparr>)
          | reject \<Rightarrow> (rejected_left_recursion, c)
          | accept \<Rightarrow> (accepted, c))"
proof -
  from assms have ne: "stack this c \<noteq> []" by (simp add: activate_left_recursive)
  from deactivate_activate(2) [OF ne]
  have d1: "deactivate this (snd (activate this c)) = Some c" .
  show ?thesis
  proof (cases "state_lr (left_recursion c)")
    case inactive
    with assms deactivate_activate(1) [OF ne, of "\<lparr>state_lr = reject, position_lr = position c\<rparr>"]
    show ?thesis
      by (simp add: rule_parse_unfold parse_switch_def activate_fields)
  next
    case reject
    with assms d1 show ?thesis
      by (simp add: rule_parse_unfold parse_switch_def activate_fields)
  next
    case accept
    with assms d1 show ?thesis
      by (simp add: rule_parse_unfold parse_switch_def activate_fields)
  qed
qed

subsection \<open>What a part of the context is after a rule, when the body leaves it alone\<close>

lemma lr_loop_frame:
  assumes body: "\<And>c res c'. m_expression c = Some (res, c') \<Longrightarrow> f c' = f c"
    and lr: "\<And>c l. f (c\<lparr>left_recursion := l\<rparr>) = f c"
    and run: "lr_loop m_expression result c = Some y"
  shows "f (snd y) = f c"
proof -
  have "m_expression = m_expression \<longrightarrow> f (snd y) = f c"
  proof (rule lr_loop.raw_induct
      [where P = "\<lambda>e _ c y. e = m_expression \<longrightarrow> f (snd y) = f c", OF _ run])
    fix loop e res c y
    assume IH: "\<And>e' res' c' y'. loop e' res' c' = Some y'
                  \<Longrightarrow> e' = m_expression \<longrightarrow> f (snd y') = f c'"
      and step: "(if valid c
         then case e (c\<lparr>left_recursion := (left_recursion c)\<lparr>position_lr := position c\<rparr>\<rparr>) of
              None \<Rightarrow> None
              | Some (lr_result, c1) \<Rightarrow>
                  (case lr_result of
                     accepted \<Rightarrow> loop e res c1
                   | accepted_left_recursion \<Rightarrow> loop e res c1
                   | rejected \<Rightarrow> Some (res, c1)
                   | rejected_left_recursion \<Rightarrow> Some (rejected_left_recursion, c1))
         else Some (res, c)) = Some y"
    show "e = m_expression \<longrightarrow> f (snd y) = f c"
    proof
      assume e: "e = m_expression"
      show "f (snd y) = f c"
      proof (cases "valid c")
        case False
        with step show ?thesis by auto
      next
        case True
        with step obtain lr_result c1 where
          b: "m_expression (c\<lparr>left_recursion := (left_recursion c)\<lparr>position_lr := position c\<rparr>\<rparr>)
                = Some (lr_result, c1)"
          unfolding e by (auto split: option.splits)
        from body [OF b] lr have c1: "f c1 = f c" by simp
        from step True b e IH [of m_expression res c1 y] c1 show ?thesis
          by (cases lr_result) auto
      qed
    qed
  qed
  then show ?thesis by simp
qed

lemma parse_reset_frame:
  assumes body: "\<And>c res c'. m_expression c = Some (res, c') \<Longrightarrow> f c' = f c"
    and lr: "\<And>c l. f (c\<lparr>left_recursion := l\<rparr>) = f c"
    and run: "parse_reset m_expression c = Some (res, c')"
  shows "f c' = f c"
  using run lr body [of "c\<lparr>left_recursion := \<lparr>state_lr = inactive, position_lr = position c\<rparr>\<rparr>"]
  by (auto simp: parse_reset_def Let_def split: option.splits)

lemma parse_switch_frame:
  assumes body: "\<And>c res c'. m_expression c = Some (res, c') \<Longrightarrow> f c' = f c"
    and lr: "\<And>c l. f (c\<lparr>left_recursion := l\<rparr>) = f c"
    and run: "parse_switch b m_expression c = Some (res, c')"
  shows "f c' = f c"
proof (cases "state_lr (left_recursion c)")
  case inactive
  show ?thesis
  proof (cases b)
    case True
    with inactive run lr show ?thesis by (auto simp: parse_switch_def)
  next
    case False
    with inactive run obtain r1 c1 where b1: "m_expression c = Some (r1, c1)"
      by (auto simp: parse_switch_def Let_def split: option.splits)
    from body [OF b1] have c1: "f c1 = f c" .
    show ?thesis
    proof (cases "state_lr (left_recursion c1) = reject \<and> r1 = accepted")
      case True
      with inactive False run b1 obtain r2 c2 where
        l: "lr_loop m_expression r1 (c1\<lparr>left_recursion := (left_recursion c1)\<lparr>state_lr := accept\<rparr>\<rparr>)
              = Some (r2, c2)"
        and c': "c' = c2\<lparr>left_recursion := left_recursion c\<rparr>"
        by (auto simp: parse_switch_def Let_def split: option.splits)
      from lr_loop_frame [OF body lr l] lr c1 c' show ?thesis by simp
    next
      case False2: False
      with inactive False run b1 c1 lr show ?thesis
        by (auto simp: parse_switch_def Let_def split: if_splits)
    qed
  qed
next
  case reject
  with run body lr
    parse_reset_frame [where f = f and m_expression = m_expression and c = c, OF body lr]
  show ?thesis
    by (auto simp: parse_switch_def split: if_splits)
next
  case accept
  with run body lr
    parse_reset_frame [where f = f and m_expression = m_expression and c = c, OF body lr]
  show ?thesis
    by (auto simp: parse_switch_def split: if_splits option.splits)
qed

text \<open>
  The stack of a rule, this one or another, is after the invocation what it was before, when
  the body leaves it as it finds it.
\<close>

lemma rule_parse_keeps_stack:
  assumes body: "\<forall>c res c'. m_expression c = Some (res, c') \<longrightarrow> stack r c' = stack r c"
    and run: "rule_parse this m_expression c = Some (res, c')"
  shows "stack r c' = stack r c"
proof -
  from run obtain c2 where
    sw: "parse_switch (fst (activate this c)) m_expression (snd (activate this c)) = Some (res, c2)"
    and de: "deactivate this c2 = Some c'"
    by (auto simp: rule_parse_unfold split: option.splits)
  have fr: "stack r c2 = stack r (snd (activate this c))"
    by (rule parse_switch_frame [where f = "stack r", OF _ _ sw])
       (use body in \<open>auto simp: stack_def\<close>)
  show ?thesis
  proof (cases "r = this")
    case True
    with fr stack_deactivate [OF de] show ?thesis by (simp add: stack_activate)
  next
    case False
    with fr stack_deactivate_other [OF de False] show ?thesis
      by (simp add: stack_activate_other)
  qed
qed

subsection \<open>Past the anchor position\<close>

text \<open>
  Claim C9. When \<open>rule::parse\<close> is entered while the left-recursion state of the context is
  reject or accept, the entry is not classified as left-recursive, and the cursor is strictly
  past the anchor position, the body is parsed on the context whose left-recursion record is
  inactive and anchored at the cursor; the verdict is the body's, and the record found on
  entry is put back afterwards, before the entry position is popped.
\<close>

theorem rule_parse_past_anchor:
  assumes "state_lr (left_recursion c) = reject \<or> state_lr (left_recursion c) = accept"
    and "\<not> fst (activate this c)"
    and "position_lr (left_recursion c) < position c"
  shows "rule_parse this m_expression c =
           (case m_expression ((snd (activate this c))
                    \<lparr>left_recursion := \<lparr>state_lr = inactive, position_lr = position c\<rparr>\<rparr>) of
              None \<Rightarrow> None
            | Some (result, c1) \<Rightarrow>
                (case deactivate this (c1\<lparr>left_recursion := left_recursion c\<rparr>) of
                   None \<Rightarrow> None
                 | Some c2 \<Rightarrow> Some (result, c2))) \<and>
         (\<forall>result c'. rule_parse this m_expression c = Some (result, c') \<longrightarrow>
            left_recursion c' = left_recursion c)"
proof -
  obtain b c1 where a: "activate this c = (b, c1)" by (cases "activate this c")
  with assms(2) have b: "\<not> b" by simp
  from a have c1: "left_recursion c1 = left_recursion c" "position c1 = position c"
    using activate_fields [of this c] by simp_all
  have eq: "rule_parse this m_expression c =
           (case m_expression (c1\<lparr>left_recursion := \<lparr>state_lr = inactive, position_lr = position c\<rparr>\<rparr>) of
              None \<Rightarrow> None
            | Some (result, c2) \<Rightarrow>
                (case deactivate this (c2\<lparr>left_recursion := left_recursion c\<rparr>) of
                   None \<Rightarrow> None
                 | Some c3 \<Rightarrow> Some (result, c3)))"
    using assms(1,3) a b c1
    by (auto simp: rule_parse_def parse_switch_def parse_reset_def Let_def split: option.splits)
  have "left_recursion c' = left_recursion c"
    if "rule_parse this m_expression c = Some (result, c')" for result c'
    using that unfolding eq
    by (auto split: option.splits simp: deactivate_Some)
  with eq a show ?thesis by simp
qed

theorem rule_parse_past_anchor_witness:
  "state_lr (left_recursion past_anchor) = accept \<and>
   \<not> fst (activate 0 past_anchor) \<and>
   position_lr (left_recursion past_anchor) < position past_anchor \<and>
   rule_parse 0 never
       (snd (activate 0 past_anchor)\<lparr>left_recursion := \<lparr>state_lr = inactive, position_lr = 1\<rparr>\<rparr>)
     = Some (rejected_left_recursion,
             (snd (activate 0 past_anchor))\<lparr>left_recursion := \<lparr>state_lr = reject, position_lr = 1\<rparr>\<rparr>) \<and>
   rule_parse 0 (rule_parse 0 never) past_anchor = Some (rejected_left_recursion, past_anchor)"
  using rule_parse_past_anchor [of past_anchor 0 "rule_parse 0 never"]
  by (simp add: past_anchor_def activate_def deactivate_def stack_def rule_parse_def
      parse_switch_def never_def)

subsection \<open>The stack of entry positions\<close>

text \<open>
  Claim C10. \<open>rule::parse\<close> starts with \<open>activate\<close>, which pushes the cursor on the stack the
  context keeps for the rule; the switch, and so the body, runs on the context so changed; it
  ends with \<open>deactivate\<close>, which pops one entry, and which has a stack to pop from exactly
  when that stack is not empty. So when the body leaves the length of that stack as it finds
  it (as a body made of rules does), the stack has the same length after an invocation that
  returns as before. \<open>activate\<close> classifies the invocation as left-recursive exactly when the
  two topmost entries of the stack, after the push, are equal, and an invocation so
  classified returns, without calling the body, the verdict the left-recursion state gives.
\<close>

theorem rule_parse_stack:
  assumes "\<forall>c res c'. m_expression c = Some (res, c') \<longrightarrow>
             length (stack this c') = length (stack this c)"
  shows "rule_parse this m_expression c =
           (case parse_switch (fst (activate this c)) m_expression (snd (activate this c)) of
              None \<Rightarrow> None
            | Some (res, c2) \<Rightarrow>
                (case deactivate this c2 of None \<Rightarrow> None | Some c3 \<Rightarrow> Some (res, c3))) \<and>
         stack this (snd (activate this c)) = stack this c @ [position c] \<and>
         (\<forall>c2 c3. deactivate this c2 = Some c3 \<longrightarrow>
            stack this c2 \<noteq> [] \<and> stack this c3 = butlast (stack this c2)) \<and>
         (\<forall>c2. deactivate this c2 = None \<longrightarrow> stack this c2 = []) \<and>
         (\<forall>res c'. rule_parse this m_expression c = Some (res, c') \<longrightarrow>
            length (stack this c') = length (stack this c)) \<and>
         fst (activate this c) =
           (case rev (stack this (snd (activate this c))) of a # b # _ \<Rightarrow> a = b | _ \<Rightarrow> False) \<and>
         (fst (activate this c) \<longrightarrow>
            rule_parse this m_expression c =
              Some (case state_lr (left_recursion c) of
                      inactive \<Rightarrow> (rejected_left_recursion,
                          c\<lparr>left_recursion := \<lparr>state_lr = reject, position_lr = position c\<rparr>\<rparr>)
                    | reject \<Rightarrow> (rejected_left_recursion, c)
                    | accept \<Rightarrow> (accepted, c)))"
proof (intro conjI allI impI)
  show "rule_parse this m_expression c =
           (case parse_switch (fst (activate this c)) m_expression (snd (activate this c)) of
              None \<Rightarrow> None
            | Some (res, c2) \<Rightarrow>
                (case deactivate this c2 of None \<Rightarrow> None | Some c3 \<Rightarrow> Some (res, c3)))"
    by (rule rule_parse_unfold)
next
  show "stack this (snd (activate this c)) = stack this c @ [position c]"
    by (rule stack_activate)
next
  fix c2 c3 assume "deactivate this c2 = Some c3"
  then show "stack this c2 \<noteq> []" "stack this c3 = butlast (stack this c2)"
    by (auto simp: deactivate_Some stack_def)
next
  fix c2 assume "deactivate this c2 = None"
  then show "stack this c2 = []" by (simp add: deactivate_None)
next
  fix res c'
  assume r: "rule_parse this m_expression c = Some (res, c')"
  then obtain c2 where
    sw: "parse_switch (fst (activate this c)) m_expression (snd (activate this c)) = Some (res, c2)"
    and de: "deactivate this c2 = Some c'"
    by (auto simp: rule_parse_unfold split: option.splits)
  have "length (stack this c2) = length (stack this (snd (activate this c)))"
    by (rule parse_switch_frame [where f = "\<lambda>c. length (stack this c)", OF _ _ sw])
       (use assms in \<open>auto simp: stack_def\<close>)
  with stack_deactivate [OF de] show "length (stack this c') = length (stack this c)"
    by (simp add: stack_activate)
next
  show "fst (activate this c) =
           (case rev (stack this (snd (activate this c))) of a # b # _ \<Rightarrow> a = b | _ \<Rightarrow> False)"
    by (rule activate_classifies)
next
  assume "fst (activate this c)"
  then show "rule_parse this m_expression c =
              Some (case state_lr (left_recursion c) of
                      inactive \<Rightarrow> (rejected_left_recursion,
                          c\<lparr>left_recursion := \<lparr>state_lr = reject, position_lr = position c\<rparr>\<rparr>)
                    | reject \<Rightarrow> (rejected_left_recursion, c)
                    | accept \<Rightarrow> (accepted, c))"
    by (rule rule_parse_left_recursive)
qed

text \<open>
  The witness: rule 0 around \<open>step_over\<close>, whose body runs and moves the cursor, and rule 0
  around a reference to itself, whose inner invocation finds the entry the outer one pushed
  and is classified as left-recursive.
\<close>

theorem rule_parse_stack_witness:
  "rule_parse 0 step_over at_start
     = Some (accepted, at_start\<lparr>position := 1, positions := [0 \<mapsto> []]\<rparr>) \<and>
   rule_parse 0 (rule_parse 0 never) at_start
     = Some (rejected_left_recursion, at_start\<lparr>positions := [0 \<mapsto> []]\<rparr>) \<and>
   length (stack 0 (at_start\<lparr>positions := [0 \<mapsto> []]\<rparr>)) = length (stack 0 at_start) \<and>
   \<not> fst (activate 0 at_start) \<and>
   fst (activate 0 (snd (activate 0 at_start)))"
proof -
  have step: "\<forall>c res c'. step_over c = Some (res, c')
                 \<longrightarrow> length (stack 0 c') = length (stack 0 c)"
    by (auto simp: step_over_def stack_def split: if_splits)
  have inner: "\<forall>c res c'. rule_parse 0 never c = Some (res, c')
                 \<longrightarrow> length (stack 0 c') = length (stack 0 c)"
    using rule_parse_stack [of never 0] by (simp add: never_def)
  have a0: "activate 0 at_start = (False, at_start\<lparr>positions := [0 \<mapsto> [0]]\<rparr>)"
    by (simp add: at_start_def activate_def stack_def)
  have s: "parse_switch False step_over (at_start\<lparr>positions := [0 \<mapsto> [0]]\<rparr>)
             = Some (accepted, at_start\<lparr>position := 1, positions := [0 \<mapsto> [0]]\<rparr>)"
    by (simp add: at_start_def parse_switch_def step_over_def valid_def)
  have d: "deactivate 0 (at_start\<lparr>position := 1, positions := [0 \<mapsto> [0]]\<rparr>)
             = Some (at_start\<lparr>position := 1, positions := [0 \<mapsto> []]\<rparr>)"
    by (simp add: at_start_def deactivate_def)
  from rule_parse_stack [OF step, of at_start, THEN conjunct1] a0 s d
  have one: "rule_parse 0 step_over at_start
     = Some (accepted, at_start\<lparr>position := 1, positions := [0 \<mapsto> []]\<rparr>)"
    by simp
  have two: "rule_parse 0 (rule_parse 0 never) at_start =
     Some (rejected_left_recursion, at_start\<lparr>positions := [0 \<mapsto> []]\<rparr>)"
    by (simp add: at_start_def activate_def deactivate_def stack_def rule_parse_def
        parse_switch_def never_def)
  from rule_parse_stack [OF inner, of at_start] one two show ?thesis
    by (simp add: at_start_def activate_def stack_def)
qed

section \<open>Where the recursion state lives\<close>

lemma Rule_fields: "\<lparr>m_parsePosition = m_parsePosition x, m_state = m_state x\<rparr> = x"
  by (cases x) simp

text \<open>
  Claim C7, amended. In the verdict-based engine the recursion bookkeeping is in the parse
  context, and \<open>rule::parse\<close> changes nothing else. It pushes the cursor on the stack kept
  under the identity of its rule before the switch and the body run, and pops it after them;
  it writes the one left-recursion record of the context, which is not kept by rule: an
  invocation classified as left-recursive in the inactive state returns with that record set
  to reject at the cursor. The stack of any rule is after the invocation what it was before,
  when the body leaves it as it finds it. In the exception-driven engine the state and the
  parse position are two fields of the \<open>Rule\<close> object: \<open>Rule::operator()\<close>, when it is not a
  re-entry, assigns them, calls the body on the rule so changed, and puts the saved values
  back when the body returns a verdict; the ordered choice assigns them by \<open>setRejectState\<close>
  before it tries the alternatives after one that threw, by \<open>setAcceptState\<close> before the grow
  loop, and by \<open>setParsePosition\<close> before every iteration of that loop.
\<close>

theorem recursion_state_location:
  "rule_parse this m_expression c =
     (case parse_switch (fst (activate this c)) m_expression (snd (activate this c)) of
        None \<Rightarrow> None
      | Some (res, c2) \<Rightarrow>
          (case deactivate this c2 of None \<Rightarrow> None | Some c3 \<Rightarrow> Some (res, c3))) \<and>
   positions (snd (activate this c)) = (positions c)(this \<mapsto> stack this c @ [position c]) \<and>
   (\<forall>c2 c3. deactivate this c2 = Some c3 \<longrightarrow>
      c3 = c2\<lparr>positions := (positions c2)(this \<mapsto> butlast (stack this c2))\<rparr>) \<and>
   (state_lr (left_recursion c) = inactive \<and> fst (activate this c) \<longrightarrow>
      rule_parse this m_expression c =
        Some (rejected_left_recursion,
              c\<lparr>left_recursion := \<lparr>state_lr = reject, position_lr = position c\<rparr>\<rparr>)) \<and>
   ((\<forall>c res c'. m_expression c = Some (res, c') \<longrightarrow> stack r c' = stack r c) \<longrightarrow>
      (\<forall>res c'. rule_parse this m_expression c = Some (res, c') \<longrightarrow> stack r c' = stack r c)) \<and>
   (\<forall>b st'. Rule_call q m_parser st = Some (Returned b, st') \<longrightarrow> rules st' q = rules st q) \<and>
   (m_parsePosition (rules st q) \<noteq> Some (sourcePosition (pc st)) \<longrightarrow>
      Rule_call q m_parser st =
        (case m_parser (st\<lparr>rules := (rules st)
                (q := \<lparr>m_parsePosition = Some (sourcePosition (pc st)), m_state = Normal\<rparr>)\<rparr>) of
           None \<Rightarrow> None
         | Some (LeftRecursionException x, st2) \<Rightarrow> Some (LeftRecursionException x, st2)
         | Some (Returned result, st2) \<Rightarrow>
             Some (Returned result, st2\<lparr>rules := (rules st2)(q := rules st q)\<rparr>))) \<and>
   rules (setRejectState q st) = (rules st)(q := (rules st q)\<lparr>m_state := Reject\<rparr>) \<and>
   rules (setAcceptState q st) = (rules st)(q := (rules st q)\<lparr>m_state := Accept\<rparr>) \<and>
   rules (setParsePosition q p st) = (rules st)(q := (rules st q)\<lparr>m_parsePosition := Some p\<rparr>) \<and>
   (child st = Some (LeftRecursionException q, st1) \<longrightarrow>
      parseTuple (child # children) st =
        (case parseTuple children (setRejectState q st1) of
           None \<Rightarrow> None
         | Some (LeftRecursionException x, st2) \<Rightarrow> Some (LeftRecursionException x, st2)
         | Some (Returned seed, st2) \<Rightarrow>
             (if \<not> seed then Some (LeftRecursionException q, st2)
              else grow q child (setAcceptState q st2)))) \<and>
   grow q child st =
     (case child (setParsePosition q (sourcePosition (pc st)) st) of
        None \<Rightarrow> None
      | Some (LeftRecursionException x, st1) \<Rightarrow> Some (LeftRecursionException x, st1)
      | Some (Returned result, st1) \<Rightarrow>
          (if \<not> result then Some (Returned True, st1)
           else if sourcePosition (pc st1) = sourceEndPosition (pc st1)
                then Some (Returned True, st1)
                else grow q child st1))"
proof (intro conjI allI impI)
  show "rule_parse this m_expression c =
     (case parse_switch (fst (activate this c)) m_expression (snd (activate this c)) of
        None \<Rightarrow> None
      | Some (res, c2) \<Rightarrow>
          (case deactivate this c2 of None \<Rightarrow> None | Some c3 \<Rightarrow> Some (res, c3)))"
    by (rule rule_parse_unfold)
next
  show "positions (snd (activate this c)) = (positions c)(this \<mapsto> stack this c @ [position c])"
    by (rule positions_activate)
next
  fix c2 c3 assume "deactivate this c2 = Some c3"
  then show "c3 = c2\<lparr>positions := (positions c2)(this \<mapsto> butlast (stack this c2))\<rparr>"
    by (simp add: deactivate_Some)
next
  assume "state_lr (left_recursion c) = inactive \<and> fst (activate this c)"
  then show "rule_parse this m_expression c =
        Some (rejected_left_recursion,
              c\<lparr>left_recursion := \<lparr>state_lr = reject, position_lr = position c\<rparr>\<rparr>)"
    using rule_parse_left_recursive [of this c m_expression] by simp
next
  fix res c'
  assume "\<forall>c res c'. m_expression c = Some (res, c') \<longrightarrow> stack r c' = stack r c"
    and "rule_parse this m_expression c = Some (res, c')"
  then show "stack r c' = stack r c" by (rule rule_parse_keeps_stack)
next
  fix b st'
  assume "Rule_call q m_parser st = Some (Returned b, st')"
  then show "rules st' q = rules st q" by (rule Rule_call_restores)
next
  assume "m_parsePosition (rules st q) \<noteq> Some (sourcePosition (pc st))"
  then show "Rule_call q m_parser st =
        (case m_parser (st\<lparr>rules := (rules st)
                (q := \<lparr>m_parsePosition = Some (sourcePosition (pc st)), m_state = Normal\<rparr>)\<rparr>) of
           None \<Rightarrow> None
         | Some (LeftRecursionException x, st2) \<Rightarrow> Some (LeftRecursionException x, st2)
         | Some (Returned result, st2) \<Rightarrow>
             Some (Returned result, st2\<lparr>rules := (rules st2)(q := rules st q)\<rparr>))"
    by (auto simp: Rule_call_def Let_def Rule_fields split: option.splits outcome.splits)
next
  show "rules (setRejectState q st) = (rules st)(q := (rules st q)\<lparr>m_state := Reject\<rparr>)"
    "rules (setAcceptState q st) = (rules st)(q := (rules st q)\<lparr>m_state := Accept\<rparr>)"
    "rules (setParsePosition q p st) = (rules st)(q := (rules st q)\<lparr>m_parsePosition := Some p\<rparr>)"
    by (simp_all add: setRejectState_def setAcceptState_def setParsePosition_def)
next
  assume "child st = Some (LeftRecursionException q, st1)"
  then show "parseTuple (child # children) st =
        (case parseTuple children (setRejectState q st1) of
           None \<Rightarrow> None
         | Some (LeftRecursionException x, st2) \<Rightarrow> Some (LeftRecursionException x, st2)
         | Some (Returned seed, st2) \<Rightarrow>
             (if \<not> seed then Some (LeftRecursionException q, st2)
              else grow q child (setAcceptState q st2)))"
    by simp
next
  show "grow q child st =
     (case child (setParsePosition q (sourcePosition (pc st)) st) of
        None \<Rightarrow> None
      | Some (LeftRecursionException x, st1) \<Rightarrow> Some (LeftRecursionException x, st1)
      | Some (Returned result, st1) \<Rightarrow>
          (if \<not> result then Some (Returned True, st1)
           else if sourcePosition (pc st1) = sourceEndPosition (pc st1)
                then Some (Returned True, st1)
                else grow q child st1))"
    by (rule grow.simps)
qed

text \<open>
  The witness: rule 0 around rule 1 around \<open>step_over\<close>, where the stack of rule 1 is empty
  before and after, though rule 1 has been entered in between; rule 0 entered again at the
  position it is active at, which sets the record of the context to reject; a rule of the
  exception-driven engine around a terminal, whose fields are after the call what they were
  before; and the choice of \<open>E = E '+' 'n' | E | 'n'\<close> on \<open>n+n\<close>, whose first alternative throws
  and which goes on to the grow loop with the rule set to \<open>Accept\<close>.
\<close>

theorem recursion_state_location_witness:
  "result_and_stack 1 (rule_parse 0 (rule_parse 1 step_over) at_start)
     = Some (accepted, stack 1 at_start) \<and>
   rule_parse 0 never entered
     = Some (rejected_left_recursion,
             entered\<lparr>left_recursion := \<lparr>state_lr = reject, position_lr = 0\<rparr>\<rparr>) \<and>
   m_parsePosition (rules (start ''ab'') 0) \<noteq> Some (sourcePosition (pc (start ''ab''))) \<and>
   outcome_and_rule 0 (Rule_call 0 (TerminalParser CHR ''a'') (start ''ab''))
     = Some (Returned True, rules (start ''ab'') 0) \<and>
   seed_alt (in_frame ''n+n'') = Some (LeftRecursionException 0, in_frame ''n+n'') \<and>
   parseTuple [seed_alt, run 3 G_seed (RuleReference 0), run 3 G_seed (Terminal CHR ''n'')]
       (in_frame ''n+n'') = grow 0 seed_alt seeded"
proof -
  have step: "\<forall>c res c'. step_over c = Some (res, c') \<longrightarrow> stack 1 c' = stack 1 c"
    by (auto simp: step_over_def stack_def split: if_splits)
  from step recursion_state_location [where this = 1 and m_expression = step_over and r = 1,
      THEN conjunct2, THEN conjunct2, THEN conjunct2, THEN conjunct2, THEN conjunct1]
  have inner: "\<forall>c res c'. rule_parse 1 step_over c = Some (res, c') \<longrightarrow> stack 1 c' = stack 1 c"
    by blast
  have ev: "map_option fst (rule_parse 0 (rule_parse 1 step_over) at_start) = Some accepted"
    by code_simp
  then obtain c' where r: "rule_parse 0 (rule_parse 1 step_over) at_start = Some (accepted, c')"
    by (cases "rule_parse 0 (rule_parse 1 step_over) at_start") auto
  from inner recursion_state_location [where this = 0 and m_expression = "rule_parse 1 step_over"
      and r = 1 and c = at_start,
      THEN conjunct2, THEN conjunct2, THEN conjunct2, THEN conjunct2, THEN conjunct1] r
  have "stack 1 c' = stack 1 at_start" by blast
  with r have one: "result_and_stack 1 (rule_parse 0 (rule_parse 1 step_over) at_start)
     = Some (accepted, stack 1 at_start)"
    by (simp add: result_and_stack_def)
  have "state_lr (left_recursion entered) = inactive \<and> fst (activate 0 entered)"
    by (simp add: entered_def activate_def stack_def)
  with recursion_state_location [where this = 0 and m_expression = never and c = entered,
      THEN conjunct2, THEN conjunct2, THEN conjunct2, THEN conjunct1]
  have two: "rule_parse 0 never entered
     = Some (rejected_left_recursion,
             entered\<lparr>left_recursion := \<lparr>state_lr = reject, position_lr = 0\<rparr>\<rparr>)"
    by (simp add: entered_def)
  have ret: "Rule_call 0 (TerminalParser CHR ''a'') (start ''ab'')
     = Some (Returned True,
         (start ''ab'')\<lparr>pc := (newContext ''ab'')\<lparr>sourcePosition := 1\<rparr>\<rparr>)"
    by (simp add: Rule_call_def TerminalParser_def start_def newContext_def newRule_def
        sourceEndPosition_def Let_def fun_upd_idem)
  have fresh: "m_parsePosition (rules (start ''ab'') 0) \<noteq> Some (sourcePosition (pc (start ''ab'')))"
    by (simp add: start_def newRule_def)
  note call = recursion_state_location [where q = 0 and m_parser = "TerminalParser CHR ''a''"
      and st = "start ''ab''", THEN conjunct2, THEN conjunct2, THEN conjunct2, THEN conjunct2,
      THEN conjunct2]
  from call [THEN conjunct1, rule_format, OF ret]
  have "rules ((start ''ab'')\<lparr>pc := (newContext ''ab'')\<lparr>sourcePosition := 1\<rparr>\<rparr>) 0
          = rules (start ''ab'') 0" .
  with ret have three: "outcome_and_rule 0 (Rule_call 0 (TerminalParser CHR ''a'') (start ''ab''))
     = Some (Returned True, rules (start ''ab'') 0)"
    by (simp only: outcome_and_rule_def option.map prod.case)
  note choice = recursion_state_location [where q = 0 and child = seed_alt
      and st = "in_frame ''n+n''" and ?st1.0 = "in_frame ''n+n''"
      and children = "[run 3 G_seed (RuleReference 0), run 3 G_seed (Terminal CHR ''n'')]",
      THEN conjunct2, THEN conjunct2, THEN conjunct2, THEN conjunct2, THEN conjunct2,
      THEN conjunct2, THEN conjunct2, THEN conjunct2, THEN conjunct2, THEN conjunct2,
      THEN conjunct1, THEN mp, OF seed_alt_throws]
  have four: "parseTuple [seed_alt, run 3 G_seed (RuleReference 0), run 3 G_seed (Terminal CHR ''n'')]
       (in_frame ''n+n'') = grow 0 seed_alt seeded"
    unfolding choice seed_seed by (simp only: option.case prod.case outcome.case sum_seeded
        not_True_eq_False if_False)
  from one two fresh three seed_alt_throws four show ?thesis by (intro conjI)
qed

text \<open>
  The counterexample to claim C7 as stated, in the exception-driven engine: inside the
  invocation of \<open>E = E '+' 'n' | 'n'\<close> on the input \<open>n+n\<close>, the rule object holds the position
  0 and the state \<open>Normal\<close> when its choice is called, and the position 1 and the state
  \<open>Accept\<close> when the choice returns.
\<close>

theorem Rule_fields_are_assigned:
  "rules (in_frame ''n+n'') 0 = \<lparr>m_parsePosition = Some 0, m_state = Normal\<rparr> \<and>
   outcome_and_rule 0 (ChoiceParser [sum_alt, run 3 G_sum (Terminal CHR ''n'')] (in_frame ''n+n''))
     = Some (Returned True, \<lparr>m_parsePosition = Some 1, m_state = Accept\<rparr>)"
proof -
  have "outcome_and_rule 0 (ChoiceParser [sum_alt, run 3 G_sum (Terminal CHR ''n'')] (in_frame ''n+n''))
     = Some (Returned True, \<lparr>m_parsePosition = Some 1, m_state = Accept\<rparr>)"
    by code_simp
  then show ?thesis by (simp add: in_frame_def)
qed

end
